theory Spec2Isabelle
  imports Complex_Main "HOL-Library.Word"
begin

section \<open>The weighted moving average filter of \<open>wma_f.c\<close>\<close>

subsection \<open>Arithmetic on \<open>float\<close> and \<open>double\<close>\<close>

text \<open>
  The filter stores \<open>float\<close> values and accumulates in a \<open>double\<close>. The arithmetic of
  the two types is a parameter of the model: \<open>'f\<close> stands for \<open>float\<close>, \<open>'d\<close> for
  \<open>double\<close>, and the record below holds exactly the operations the two functions use.
  Every theorem that quantifies over the record holds for whatever the target's
  floating-point unit or library computes, rounding included.
\<close>

record ('f, 'd) arith =
  f_zero :: 'f                        \<comment> \<open>the constant \<open>0\<close> converted to \<open>float\<close>\<close>
  f_add :: "'f \<Rightarrow> 'f \<Rightarrow> 'f"         \<comment> \<open>\<open>float + float\<close>\<close>
  f_mul :: "'f \<Rightarrow> 'f \<Rightarrow> 'f"         \<comment> \<open>\<open>float * float\<close>\<close>
  f2d :: "'f \<Rightarrow> 'd"                  \<comment> \<open>the implicit conversion \<open>float\<close> to \<open>double\<close>\<close>
  d_zero :: 'd                        \<comment> \<open>the constant \<open>0\<close> converted to \<open>double\<close>\<close>
  d_add :: "'d \<Rightarrow> 'd \<Rightarrow> 'd"         \<comment> \<open>\<open>double + double\<close>\<close>
  d_div :: "'d \<Rightarrow> 'd \<Rightarrow> 'd"         \<comment> \<open>\<open>double / double\<close>\<close>
  d2f :: "'d \<Rightarrow> 'f"                  \<comment> \<open>the cast \<open>(float)\<close> of a \<open>double\<close>\<close>

subsection \<open>The instance\<close>

text \<open>
  Modelled from the spec: the declaration of \<open>wma_f_t\<close> lives in \<open>wma_f.h\<close>, which is
  not among the sources. The fields are the ones \<open>wma_f.c\<close> reads and writes. The window
  size is 16 bits wide, as the loop counter and the cursor that \<open>wma_f_add\<close> compares
  with it and reduces by it are \<open>uint16_t\<close>. The width \<open>'w\<close> of the sample counter
  \<open>k\<close>, an unsigned integer, is left open; incrementing it wraps around at
  \<open>2 ^ LENGTH('w)\<close>. The two arrays the instance points to are lists, and they are
  distinct objects.
\<close>

record (overloaded) ('w, 'f) wma_f_t =
  k :: "'w word"
  size_wma :: "16 word"
  avg :: 'f
  sum_weight :: 'f
  weight :: "'f list"
  buffer :: "'f list"

text \<open>
  The two values of \<open>error_t\<close> that \<open>wma_f_init\<close> returns; the type is declared
  outside \<open>wma_f.c\<close>. \<open>ERROR_NONE\<close> is the value the usage example tests as false.
\<close>

datatype error_t = ERROR_NONE | ERROR_UNEXPECTEDVALUE

text \<open>
  What C leaves undefined is a value of the model: an integer remainder by zero, and an
  access outside the array a pointer refers to.
\<close>

datatype trap = DivideByZero | OutOfBounds

definition array_read :: "'a list \<Rightarrow> nat \<Rightarrow> trap + 'a" where
  "array_read xs i = (if i < length xs then Inr (xs ! i) else Inl OutOfBounds)"

definition array_write :: "'a list \<Rightarrow> nat \<Rightarrow> 'a \<Rightarrow> trap + 'a list" where
  "array_write xs i v = (if i < length xs then Inr (xs[i := v]) else Inl OutOfBounds)"

subsection \<open>\<open>wma_f_init\<close>\<close>

text \<open>
  The loop \<open>for (uint16_t i = 0; i < wma->size; i++) wma->sum_weight += wma->weight[i];\<close>
  entered with counter \<open>i\<close>.
\<close>

function init_loop ::
  "('f, 'd) arith \<Rightarrow> ('w::len, 'f) wma_f_t \<Rightarrow> 16 word \<Rightarrow> trap + ('w, 'f) wma_f_t" where
  "init_loop ar wma i =
     (if i < size_wma wma then
        (case array_read (weight wma) (unat i) of
           Inl e \<Rightarrow> Inl e
         | Inr w \<Rightarrow> init_loop ar (wma\<lparr>sum_weight := f_add ar (sum_weight wma) w\<rparr>) (i + 1))
      else Inr wma)"
  by pat_completeness auto
termination
proof (relation "measure (\<lambda>(ar, wma, i). unat (size_wma wma) - unat i)")
  show "wf (measure (\<lambda>(ar, wma, i). unat (size_wma wma) - unat i))"
    by simp
next
  fix ar :: "('f, 'd) arith" and wma :: "('w, 'f) wma_f_t" and i :: "16 word" and w :: 'f
  assume lt: "i < size_wma wma"
  then have below: "unat i < unat (size_wma wma)"
    by (simp add: word_less_nat_alt)
  moreover have "unat (size_wma wma) < 2 ^ LENGTH(16)"
    by (rule unsigned_less)
  ultimately have "unat i + 1 < 2 ^ LENGTH(16)"
    by linarith
  then have "unat (i + 1) = unat i + 1"
    by (simp add: unat_word_ariths)
  with below show "((ar, wma\<lparr>sum_weight := f_add ar (sum_weight wma) w\<rparr>, i + 1), (ar, wma, i))
      \<in> measure (\<lambda>(ar, wma, i). unat (size_wma wma) - unat i)"
    by simp
qed

text \<open>The loop equation is unfolded by hand where it is needed.\<close>

declare init_loop.simps [simp del]

text \<open>
  \<open>wma_f_init\<close>: the size check, the three assignments and the loop over the weights.
\<close>

definition wma_f_init ::
  "('f, 'd) arith \<Rightarrow> ('w::len, 'f) wma_f_t \<Rightarrow> trap + (error_t \<times> ('w, 'f) wma_f_t)" where
  "wma_f_init ar wma =
     (if 0 = size_wma wma then Inr (ERROR_UNEXPECTEDVALUE, wma)
      else
        (case init_loop ar (wma\<lparr>avg := f_zero ar, k := 0, sum_weight := f_zero ar\<rparr>) 0 of
           Inl e \<Rightarrow> Inl e
         | Inr wma' \<Rightarrow> Inr (ERROR_NONE, wma')))"

subsection \<open>\<open>wma_f_add\<close>\<close>

text \<open>
  The loop
  \<open>for (uint16_t i = 0; i < wma->size; i++)
     total += wma->buffer[(i + current_pos) % wma->size] * wma->weight[i];\<close>
  entered with counter \<open>i\<close> and running total \<open>total_d\<close> (the source's \<open>total\<close>).
  The product is a \<open>float\<close>, converted to \<open>double\<close> for the addition;
  \<open>i + current_pos\<close> is computed in \<open>int\<close> and cannot overflow.
\<close>

function add_loop ::
  "('f, 'd) arith \<Rightarrow> ('w::len, 'f) wma_f_t \<Rightarrow> 16 word \<Rightarrow> 16 word \<Rightarrow> 'd \<Rightarrow> trap + 'd" where
  "add_loop ar wma current_pos i total_d =
     (if i < size_wma wma then
        (case array_read (buffer wma) ((unat i + unat current_pos) mod unat (size_wma wma)) of
           Inl e \<Rightarrow> Inl e
         | Inr b \<Rightarrow>
             (case array_read (weight wma) (unat i) of
                Inl e \<Rightarrow> Inl e
              | Inr w \<Rightarrow>
                  add_loop ar wma current_pos (i + 1)
                    (d_add ar total_d (f2d ar (f_mul ar b w)))))
      else Inr total_d)"
  by pat_completeness auto
termination
proof (relation "measure (\<lambda>(ar, wma, current_pos, i, total_d). unat (size_wma wma) - unat i)")
  show "wf (measure (\<lambda>(ar, wma, current_pos, i, total_d). unat (size_wma wma) - unat i))"
    by simp
next
  fix ar :: "('f, 'd) arith" and wma :: "('w, 'f) wma_f_t" and current_pos i :: "16 word"
    and total_d :: 'd and b w :: 'f
  assume lt: "i < size_wma wma"
  then have below: "unat i < unat (size_wma wma)"
    by (simp add: word_less_nat_alt)
  moreover have "unat (size_wma wma) < 2 ^ LENGTH(16)"
    by (rule unsigned_less)
  ultimately have "unat i + 1 < 2 ^ LENGTH(16)"
    by linarith
  then have "unat (i + 1) = unat i + 1"
    by (simp add: unat_word_ariths)
  with below show "((ar, wma, current_pos, i + 1, d_add ar total_d (f2d ar (f_mul ar b w))),
       (ar, wma, current_pos, i, total_d))
      \<in> measure (\<lambda>(ar, wma, current_pos, i, total_d). unat (size_wma wma) - unat i)"
    by simp
qed

declare add_loop.simps [simp del]

text \<open>
  One call of \<open>wma_f_add\<close>. With a window size of 0 the first statement takes a
  remainder by zero. Otherwise the sample is stored at \<open>k % size\<close>, \<open>k\<close> is
  incremented, and the call returns early while \<open>k < size\<close>; else it recomputes the
  average from the cursor \<open>k % size\<close>.
\<close>

definition wma_f_add ::
  "('f, 'd) arith \<Rightarrow> ('w::len, 'f) wma_f_t \<Rightarrow> 'f \<Rightarrow> trap + ('w, 'f) wma_f_t" where
  "wma_f_add ar wma x =
     (if size_wma wma = 0 then Inl DivideByZero
      else
        (case array_write (buffer wma) (unat (k wma) mod unat (size_wma wma)) x of
           Inl e \<Rightarrow> Inl e
         | Inr buf \<Rightarrow>
             (let wma1 = wma\<lparr>buffer := buf\<rparr>;
                  wma2 = wma1\<lparr>k := k wma1 + 1\<rparr>
              in if unat (k wma2) < unat (size_wma wma2) then Inr wma2
                 else
                   (let current_pos = (of_nat (unat (k wma2) mod unat (size_wma wma2)) :: 16 word)
                    in case add_loop ar wma2 current_pos 0 (d_zero ar) of
                         Inl e \<Rightarrow> Inl e
                       | Inr total_d \<Rightarrow>
                           Inr (wma2\<lparr>avg := d2f ar (d_div ar total_d (f2d ar (sum_weight wma2)))\<rparr>)))))"

text \<open>A sequence of calls of \<open>wma_f_add\<close> on one instance, as in the usage example.\<close>

fun add_all ::
  "('f, 'd) arith \<Rightarrow> ('w::len, 'f) wma_f_t \<Rightarrow> 'f list \<Rightarrow> trap + ('w, 'f) wma_f_t" where
  "add_all ar wma [] = Inr wma"
| "add_all ar wma (x # xs) =
     (case wma_f_add ar wma x of Inl e \<Rightarrow> Inl e | Inr wma' \<Rightarrow> add_all ar wma' xs)"

subsection \<open>The data model and the window, in the specification's words\<close>

text \<open>
  A well-formed instance: the caller has provided a weight array and a sample buffer of
  \<open>size\<close> elements each.
\<close>

definition wma_wf :: "('w::len, 'f) wma_f_t \<Rightarrow> bool" where
  "wma_wf wma \<longleftrightarrow>
     length (weight wma) = unat (size_wma wma) \<and> length (buffer wma) = unat (size_wma wma)"

text \<open>
  The window read from a ring of \<open>n\<close> slots starting at slot \<open>c\<close>: element \<open>i\<close> is
  \<open>buf[(i + c) mod n]\<close>.
\<close>

definition ring_window :: "'f list \<Rightarrow> nat \<Rightarrow> nat \<Rightarrow> 'f list" where
  "ring_window buf c n = map (\<lambda>i. buf ! ((i + c) mod n)) [0..<n]"

text \<open>
  The weighted total of a window: element \<open>i\<close> of the window is multiplied by weight
  \<open>i\<close>, and the products are added up from the left in \<open>double\<close>.
\<close>

definition weighted_total :: "('f, 'd) arith \<Rightarrow> 'f list \<Rightarrow> 'f list \<Rightarrow> 'd" where
  "weighted_total ar ws win =
     foldl (\<lambda>t (b, w). d_add ar t (f2d ar (f_mul ar b w))) (d_zero ar) (zip win ws)"

text \<open>The weighted average: the total divided by the weight sum, narrowed to \<open>float\<close>.\<close>

definition window_average :: "('f, 'd) arith \<Rightarrow> 'f list \<Rightarrow> 'f \<Rightarrow> 'f list \<Rightarrow> 'f" where
  "window_average ar ws sw win = d2f ar (d_div ar (weighted_total ar ws win) (f2d ar sw))"

text \<open>The last \<open>n\<close> elements of a list, oldest first.\<close>

definition last_n :: "nat \<Rightarrow> 'a list \<Rightarrow> 'a list" where
  "last_n n xs = drop (length xs - n) xs"

text \<open>
  The number of most recent samples whose slots agree with the counter. Incrementing the
  counter past its largest value restarts it at 0; the ring position then jumps unless the
  window size divides \<open>2 ^ LENGTH('w)\<close>.
\<close>

definition in_step :: "('w::len, 'f) wma_f_t \<Rightarrow> 'f list \<Rightarrow> nat" where
  "in_step wma xs =
     (if unat (size_wma wma) dvd 2 ^ LENGTH('w) then length xs else unat (k wma))"

text \<open>
  The ring invariant after the samples \<open>xs\<close> have been added: the counter is their number
  modulo \<open>2 ^ LENGTH('w)\<close>, and the \<open>j\<close>-th most recent sample is \<open>j + 1\<close> slots before
  the cursor, for as many samples as are in step.
\<close>

definition ring_inv :: "('w::len, 'f) wma_f_t \<Rightarrow> 'f list \<Rightarrow> bool" where
  "ring_inv wma xs \<longleftrightarrow>
     unat (k wma) = length xs mod 2 ^ LENGTH('w) \<and>
     (\<forall>j < min (in_step wma xs) (unat (size_wma wma)).
        buffer wma ! ((unat (k wma) + unat (size_wma wma) - 1 - j) mod unat (size_wma wma))
          = rev xs ! j)"

subsection \<open>Exact arithmetic\<close>

text \<open>
  An instance of the arithmetic for evaluating the model on concrete inputs: rational
  values computed without rounding, with the infinities and NaN that IEEE 754 arithmetic
  returns for a division by zero and for undefined operations.
\<close>

datatype xnum = Fin rat | PInf | NInf | NaN

fun x_add :: "xnum \<Rightarrow> xnum \<Rightarrow> xnum" where
  "x_add NaN _ = NaN"
| "x_add _ NaN = NaN"
| "x_add PInf NInf = NaN"
| "x_add NInf PInf = NaN"
| "x_add PInf _ = PInf"
| "x_add _ PInf = PInf"
| "x_add NInf _ = NInf"
| "x_add _ NInf = NInf"
| "x_add (Fin a) (Fin b) = Fin (a + b)"

fun x_neg :: "xnum \<Rightarrow> xnum" where
  "x_neg (Fin a) = Fin (- a)"
| "x_neg PInf = NInf"
| "x_neg NInf = PInf"
| "x_neg NaN = NaN"

fun x_mul :: "xnum \<Rightarrow> xnum \<Rightarrow> xnum" where
  "x_mul NaN _ = NaN"
| "x_mul _ NaN = NaN"
| "x_mul (Fin a) (Fin b) = Fin (a * b)"
| "x_mul (Fin a) y = (if a = 0 then NaN else if 0 < a then y else x_neg y)"
| "x_mul x (Fin b) = (if b = 0 then NaN else if 0 < b then x else x_neg x)"
| "x_mul PInf y = y"
| "x_mul NInf y = x_neg y"

fun x_div :: "xnum \<Rightarrow> xnum \<Rightarrow> xnum" where
  "x_div NaN _ = NaN"
| "x_div _ NaN = NaN"
| "x_div (Fin a) (Fin b) =
     (if b = 0 then (if a = 0 then NaN else if 0 < a then PInf else NInf) else Fin (a / b))"
| "x_div (Fin a) _ = Fin 0"
| "x_div x (Fin b) = (if 0 \<le> b then x else x_neg x)"
| "x_div _ _ = NaN"

definition exact_arith :: "(xnum, xnum) arith" where
  "exact_arith =
     \<lparr>f_zero = Fin 0, f_add = x_add, f_mul = x_mul, f2d = (\<lambda>x. x),
      d_zero = Fin 0, d_add = x_add, d_div = x_div, d2f = (\<lambda>x. x)\<rparr>"

subsection \<open>The usage example of \<open>wma_f.c\<close>\<close>

text \<open>
  The instance, the weights and the ten samples of the example in the file's header
  comment. \<open>lit\<close> is the \<open>float\<close> value of a decimal constant; the buffer is not
  initialised by the example, so its contents \<open>buf\<close> are arbitrary.
\<close>

definition usage_weights :: "(rat \<Rightarrow> 'f) \<Rightarrow> 'f list" where
  "usage_weights lit = map lit [1 / 10, 1 / 10, 1 / 8, 1 / 8, 1 / 4, 1 / 4, 1 / 2, 1]"

definition usage_samples :: "(rat \<Rightarrow> 'f) \<Rightarrow> 'f list" where
  "usage_samples lit =
     map lit [1, 21 / 10, - (151 / 5), - (353 / 10), 57 / 5, 71 / 2, 153 / 5, 207 / 10,
              19 / 5, 109 / 10]"

definition usage_wma :: "(rat \<Rightarrow> 'f) \<Rightarrow> 'f list \<Rightarrow> ('w::len, 'f) wma_f_t" where
  "usage_wma lit buf =
     \<lparr>k = 0, size_wma = 8, avg = lit 0, sum_weight = lit 0,
      weight = usage_weights lit, buffer = buf\<rparr>"

text \<open>
  \<open>wma_f_init\<close> followed by a sequence of \<open>wma_f_add\<close>, the way the example runs
  them: it reports a failed initialisation and goes on.
\<close>

definition init_then_add ::
  "('f, 'd) arith \<Rightarrow> ('w::len, 'f) wma_f_t \<Rightarrow> 'f list \<Rightarrow> trap + ('w, 'f) wma_f_t" where
  "init_then_add ar wma xs =
     (case wma_f_init ar wma of
        Inl e \<Rightarrow> Inl e
      | Inr (err, wma') \<Rightarrow> add_all ar wma' xs)"

subsection \<open>A small instance\<close>

text \<open>
  A window of two samples over 16-bit counters in exact arithmetic, before
  \<open>wma_f_init\<close> (with values left over from an earlier use) and after it.
\<close>

definition small_wma :: "(16, xnum) wma_f_t" where
  "small_wma =
     \<lparr>k = 9, size_wma = 2, avg = Fin 4, sum_weight = Fin 5,
      weight = [Fin 1, Fin 3], buffer = [Fin 7, Fin 8]\<rparr>"

definition small_wma_ready :: "(16, xnum) wma_f_t" where
  "small_wma_ready =
     \<lparr>k = 0, size_wma = 2, avg = Fin 0, sum_weight = Fin 4,
      weight = [Fin 1, Fin 3], buffer = [Fin 7, Fin 8]\<rparr>"

subsection \<open>A long run\<close>

text \<open>
  A window of three samples over a 16-bit counter, and the samples numbered \<open>0\<close> to
  \<open>b - 1\<close>, each sample being its own number.
\<close>

definition overflow_wma :: "(16, xnum) wma_f_t" where
  "overflow_wma =
     \<lparr>k = 0, size_wma = 3, avg = Fin 0, sum_weight = Fin 0,
      weight = [Fin 1, Fin 1, Fin 1], buffer = [Fin 0, Fin 0, Fin 0]\<rparr>"

definition sample_ramp :: "nat \<Rightarrow> xnum list" where
  "sample_ramp b = map (\<lambda>i. Fin (of_nat i)) [0..<b]"

subsection \<open>Two runs side by side, and unusual weights\<close>

text \<open>
  \<open>agree s t l\<close>: after \<open>l\<close> samples the instances \<open>s\<close> and \<open>t\<close> have the same
  configuration, counter, average and weight sum, and the same contents in the slots
  written so far. \<open>stale_wma\<close> is \<open>small_wma\<close> with other values left over in the
  counter, the average and the buffer. The last two instances have weights that are all
  zero, and weights that are negative, infinite and not a number.
\<close>

definition agree :: "('w::len, 'f) wma_f_t \<Rightarrow> ('w, 'f) wma_f_t \<Rightarrow> nat \<Rightarrow> bool" where
  "agree s t l \<longleftrightarrow>
     wma_wf s \<and> wma_wf t \<and> size_wma s \<noteq> 0 \<and> size_wma s = size_wma t \<and>
     weight s = weight t \<and> sum_weight s = sum_weight t \<and> k s = k t \<and> avg s = avg t \<and>
     unat (k s) = l mod 2 ^ LENGTH('w) \<and>
     (\<forall>i < min l (min (unat (size_wma s)) (2 ^ LENGTH('w))). buffer s ! i = buffer t ! i)"

definition stale_wma :: "(16, xnum) wma_f_t" where
  "stale_wma =
     \<lparr>k = 4, size_wma = 2, avg = Fin 1, sum_weight = Fin 0,
      weight = [Fin 1, Fin 3], buffer = [Fin 7, Fin 9]\<rparr>"

definition zero_weights_wma :: "(16, xnum) wma_f_t" where
  "zero_weights_wma =
     \<lparr>k = 0, size_wma = 2, avg = Fin 0, sum_weight = Fin 0,
      weight = [Fin 0, Fin 0], buffer = [Fin 0, Fin 0]\<rparr>"

definition odd_weights_wma :: "(16, xnum) wma_f_t" where
  "odd_weights_wma =
     \<lparr>k = 0, size_wma = 3, avg = Fin 0, sum_weight = Fin 0,
      weight = [Fin (- 2), PInf, NaN], buffer = [Fin 0, Fin 0, Fin 0]\<rparr>"

section \<open>The loops and one call of \<open>wma_f_add\<close>\<close>


lemma word16_succ: "(i::16 word) < s \<Longrightarrow> unat (i + 1) = unat i + 1"
proof -
  assume lt: "i < s"
  have "unat i < unat s" using lt by (simp add: word_less_nat_alt)
  moreover have "unat s < 2 ^ LENGTH(16)" by (rule unsigned_less)
  ultimately have "unat i + 1 < 2 ^ LENGTH(16)" by linarith
  then show ?thesis by (simp add: unat_word_ariths)
qed

lemma init_loop_eq:
  "unat i \<le> unat (size_wma s) \<Longrightarrow> unat (size_wma s) \<le> length (weight s) \<Longrightarrow>
   init_loop ar s i =
     Inr (s\<lparr>sum_weight := foldl (f_add ar) (sum_weight s)
            (take (unat (size_wma s) - unat i) (drop (unat i) (weight s)))\<rparr>)"
proof (induction ar s i rule: init_loop.induct)
  case (1 ar wma i)
  show ?case
  proof (cases "i < size_wma wma")
    case True
    then have lt: "unat i < unat (size_wma wma)" by (simp add: word_less_nat_alt)
    have suc: "unat (i + 1) = unat i + 1" using True by (rule word16_succ)
    have rd: "array_read (weight wma) (unat i) = Inr (weight wma ! unat i)"
      using lt "1.prems" by (simp add: array_read_def)
    let ?w = "weight wma ! unat i"
    let ?s = "wma\<lparr>sum_weight := f_add ar (sum_weight wma) ?w\<rparr>"
    have ih: "init_loop ar ?s (i + 1) =
        Inr (?s\<lparr>sum_weight := foldl (f_add ar) (sum_weight ?s)
            (take (unat (size_wma ?s) - unat (i + 1)) (drop (unat (i + 1)) (weight ?s)))\<rparr>)"
      using "1.IH"[OF True rd] lt suc "1.prems" by simp
    have split: "take (unat (size_wma wma) - unat i) (drop (unat i) (weight wma)) =
        ?w # take (unat (size_wma wma) - (unat i + 1)) (drop (unat i + 1) (weight wma))"
    proof -
      have "drop (unat i) (weight wma) = ?w # drop (Suc (unat i)) (weight wma)"
        using lt "1.prems" by (simp add: Cons_nth_drop_Suc)
      moreover have "unat (size_wma wma) - unat i = Suc (unat (size_wma wma) - (unat i + 1))"
        using lt by simp
      ultimately show ?thesis by simp
    qed
    have "init_loop ar wma i = init_loop ar ?s (i + 1)"
      using True rd by (subst init_loop.simps) simp
    then show ?thesis using ih split suc by simp
  next
    case False
    then have "unat i = unat (size_wma wma)"
      using "1.prems" by (simp add: word_less_nat_alt)
    then show ?thesis using False by (subst init_loop.simps) simp
  qed
qed

lemma add_loop_eq:
  "unat i \<le> unat (size_wma s) \<Longrightarrow> unat (size_wma s) \<le> length (weight s) \<Longrightarrow>
   unat (size_wma s) \<le> length (buffer s) \<Longrightarrow>
   add_loop ar s cp i t =
     Inr (foldl (\<lambda>t j. d_add ar t (f2d ar (f_mul ar
            (buffer s ! ((j + unat cp) mod unat (size_wma s))) (weight s ! j))))
          t [unat i..<unat (size_wma s)])"
proof (induction ar s cp i t rule: add_loop.induct)
  case (1 ar wma cp i t)
  show ?case
  proof (cases "i < size_wma wma")
    case True
    then have lt: "unat i < unat (size_wma wma)" by (simp add: word_less_nat_alt)
    have suc: "unat (i + 1) = unat i + 1" using True by (rule word16_succ)
    have "(unat i + unat cp) mod unat (size_wma wma) < unat (size_wma wma)"
      using lt by simp
    then have rb: "array_read (buffer wma) ((unat i + unat cp) mod unat (size_wma wma)) =
        Inr (buffer wma ! ((unat i + unat cp) mod unat (size_wma wma)))"
      using "1.prems" by (simp add: array_read_def)
    have rw: "array_read (weight wma) (unat i) = Inr (weight wma ! unat i)"
      using lt "1.prems" by (simp add: array_read_def)
    let ?t = "d_add ar t (f2d ar (f_mul ar
        (buffer wma ! ((unat i + unat cp) mod unat (size_wma wma))) (weight wma ! unat i)))"
    have ih: "add_loop ar wma cp (i + 1) ?t =
        Inr (foldl (\<lambda>t j. d_add ar t (f2d ar (f_mul ar
            (buffer wma ! ((j + unat cp) mod unat (size_wma wma))) (weight wma ! j))))
          ?t [unat (i + 1)..<unat (size_wma wma)])"
      using "1.IH"[OF True rb rw] lt suc "1.prems" by simp
    have "add_loop ar wma cp i t = add_loop ar wma cp (i + 1) ?t"
      using True rb rw by (subst add_loop.simps) simp
    moreover have "[unat i..<unat (size_wma wma)] = unat i # [unat (i + 1)..<unat (size_wma wma)]"
      using lt suc by (simp add: upt_conv_Cons)
    ultimately show ?thesis using ih by simp
  next
    case False
    then have "unat i = unat (size_wma wma)"
      using "1.prems" by (simp add: word_less_nat_alt)
    then show ?thesis using False by (subst add_loop.simps) simp
  qed
qed

lemma weighted_total_ring:
  "n \<le> length ws \<Longrightarrow>
   weighted_total ar ws (ring_window buf c n) =
     foldl (\<lambda>t j. d_add ar t (f2d ar (f_mul ar (buf ! ((j + c) mod n)) (ws ! j))))
       (d_zero ar) [0..<n]"
proof -
  assume le: "n \<le> length ws"
  have "zip (ring_window buf c n) ws = map (\<lambda>j. (buf ! ((j + c) mod n), ws ! j)) [0..<n]"
    using le by (intro nth_equalityI) (simp_all add: ring_window_def)
  then show ?thesis
    by (simp add: weighted_total_def foldl_map)
qed


lemma wma_f_add_eq:
  assumes wf: "wma_wf s" and nz: "size_wma s \<noteq> 0"
  shows "wma_f_add ar s x =
     Inr (if unat (k s + 1) < unat (size_wma s)
          then s\<lparr>buffer := (buffer s)[unat (k s) mod unat (size_wma s) := x], k := k s + 1\<rparr>
          else s\<lparr>buffer := (buffer s)[unat (k s) mod unat (size_wma s) := x], k := k s + 1,
                 avg := window_average ar (weight s) (sum_weight s)
                   (ring_window ((buffer s)[unat (k s) mod unat (size_wma s) := x])
                      (unat (k s + 1) mod unat (size_wma s)) (unat (size_wma s)))\<rparr>)"
proof -
  let ?n = "unat (size_wma s)"
  let ?p = "unat (k s) mod ?n"
  let ?buf = "(buffer s)[?p := x]"
  let ?s2 = "s\<lparr>buffer := ?buf, k := k s + 1\<rparr>"
  let ?c = "unat (k s + 1) mod ?n"
  have npos: "0 < ?n" using nz by (simp add: unat_gt_0)
  have lens: "length (weight s) = ?n" "length (buffer s) = ?n"
    using wf by (simp_all add: wma_wf_def)
  have wr: "array_write (buffer s) ?p x = Inr ?buf"
    using npos lens by (simp add: array_write_def)
  have "?c < ?n" using npos by simp
  moreover have "?n < 2 ^ LENGTH(16)" by (rule unsigned_less)
  ultimately have "?c < 2 ^ LENGTH(16)" by linarith
  then have cur: "unat (of_nat ?c :: 16 word) = ?c"
    by (simp add: unat_of_nat)
  have loop: "add_loop ar ?s2 (of_nat ?c) 0 (d_zero ar) =
      Inr (weighted_total ar (weight s) (ring_window ?buf ?c ?n))"
  proof -
    have "add_loop ar ?s2 (of_nat ?c) 0 (d_zero ar) =
        Inr (foldl (\<lambda>t j. d_add ar t (f2d ar (f_mul ar
              (buffer ?s2 ! ((j + unat (of_nat ?c :: 16 word)) mod unat (size_wma ?s2)))
              (weight ?s2 ! j))))
            (d_zero ar) [unat (0 :: 16 word)..<unat (size_wma ?s2)])"
      by (rule add_loop_eq) (simp_all add: lens)
    then show ?thesis
      using cur lens by (simp add: weighted_total_ring)
  qed
  show ?thesis
    using nz wr loop
    by (simp add: wma_f_add_def Let_def window_average_def)
qed

lemma init_loop_frame:
  "init_loop ar s i = Inr s' \<Longrightarrow> s' = s\<lparr>sum_weight := sum_weight s'\<rparr>"
proof (induction ar s i arbitrary: s' rule: init_loop.induct)
  case (1 ar wma i)
  show ?case
  proof (cases "i < size_wma wma")
    case True
    show ?thesis
    proof (cases "array_read (weight wma) (unat i)")
      case (Inl e)
      with True "1.prems" show ?thesis
        by (subst (asm) init_loop.simps) simp
    next
      case (Inr w)
      let ?s = "wma\<lparr>sum_weight := f_add ar (sum_weight wma) w\<rparr>"
      from True Inr "1.prems" have "init_loop ar ?s (i + 1) = Inr s'"
        by (subst (asm) init_loop.simps) simp
      then have "s' = ?s\<lparr>sum_weight := sum_weight s'\<rparr>"
        by (rule "1.IH"[OF True Inr])
      then show ?thesis by simp
    qed
  next
    case False
    with "1.prems" have "s' = wma"
      by (subst (asm) init_loop.simps) simp
    then show ?thesis by simp
  qed
qed

subsection \<open>Sequences of calls and the ring invariant\<close>

lemma wma_f_add_fields:
  assumes wf: "wma_wf s" and nz: "size_wma s \<noteq> 0" and add: "wma_f_add ar s x = Inr s'"
  shows "size_wma s' = size_wma s" and "weight s' = weight s"
    and "sum_weight s' = sum_weight s" and "k s' = k s + 1"
    and "buffer s' = (buffer s)[unat (k s) mod unat (size_wma s) := x]"
    and "wma_wf s'"
  using add wf unfolding wma_f_add_eq [OF wf nz]
  by (auto simp: wma_wf_def split: if_splits)

lemma wma_f_add_avg:
  assumes wf: "wma_wf s" and nz: "size_wma s \<noteq> 0" and add: "wma_f_add ar s x = Inr s'"
  shows "avg s' =
    (if unat (k s') < unat (size_wma s') then avg s
     else window_average ar (weight s') (sum_weight s')
            (ring_window (buffer s') (unat (k s') mod unat (size_wma s')) (unat (size_wma s'))))"
  using add unfolding wma_f_add_eq [OF wf nz]
  by (auto split: if_splits)

lemma add_all_append:
  "add_all ar s (xs @ ys) =
     (case add_all ar s xs of Inl e \<Rightarrow> Inl e | Inr s' \<Rightarrow> add_all ar s' ys)"
  by (induction xs arbitrary: s) (auto split: sum.splits)

lemma add_all_total:
  "wma_wf s \<Longrightarrow> size_wma s \<noteq> 0 \<Longrightarrow>
   \<exists>s'. add_all ar s xs = Inr s' \<and> wma_wf s' \<and> size_wma s' = size_wma s \<and>
        weight s' = weight s \<and> sum_weight s' = sum_weight s"
proof (induction xs arbitrary: s)
  case Nil
  then show ?case by simp
next
  case (Cons x xs)
  from wma_f_add_eq [OF Cons.prems, of ar x]
  obtain s1 where s1: "wma_f_add ar s x = Inr s1" by blast
  note f = wma_f_add_fields [OF Cons.prems s1]
  from f have "size_wma s1 \<noteq> 0" using Cons.prems by simp
  from Cons.IH [OF f(6) this] f s1 show ?case by auto
qed

lemma wma_f_init_eq:
  assumes "size_wma wma \<noteq> 0" and "length (weight wma) = unat (size_wma wma)"
  shows "wma_f_init ar wma =
     Inr (ERROR_NONE, wma\<lparr>avg := f_zero ar, k := 0,
            sum_weight := foldl (f_add ar) (f_zero ar) (weight wma)\<rparr>)"
proof -
  let ?s = "wma\<lparr>avg := f_zero ar, k := 0, sum_weight := f_zero ar\<rparr>"
  have "init_loop ar ?s 0 =
      Inr (?s\<lparr>sum_weight := foldl (f_add ar) (sum_weight ?s)
             (take (unat (size_wma ?s) - unat (0 :: 16 word))
                (drop (unat (0 :: 16 word)) (weight ?s)))\<rparr>)"
    by (rule init_loop_eq) (simp_all add: assms)
  then show ?thesis
    using assms by (simp add: wma_f_init_def)
qed

lemma wma_f_init_ok:
  assumes wf: "wma_wf s0" and init: "wma_f_init ar s0 = Inr (ERROR_NONE, s1)"
  shows "size_wma s0 \<noteq> 0" and "wma_wf s1" and "size_wma s1 = size_wma s0"
    and "weight s1 = weight s0" and "buffer s1 = buffer s0" and "k s1 = 0"
    and "avg s1 = f_zero ar"
    and "sum_weight s1 = foldl (f_add ar) (f_zero ar) (weight s0)"
proof -
  show nz: "size_wma s0 \<noteq> 0"
    using init by (auto simp: wma_f_init_def split: if_splits)
  from wf have len: "length (weight s0) = unat (size_wma s0)"
    by (simp add: wma_wf_def)
  from init have eq: "s1 = s0\<lparr>avg := f_zero ar, k := 0,
      sum_weight := foldl (f_add ar) (f_zero ar) (weight s0)\<rparr>"
    unfolding wma_f_init_eq [OF nz len] by simp
  show "k s1 = 0" "avg s1 = f_zero ar"
    "sum_weight s1 = foldl (f_add ar) (f_zero ar) (weight s0)"
    "size_wma s1 = size_wma s0" "weight s1 = weight s0" "buffer s1 = buffer s0"
    by (simp_all add: eq)
  then show "wma_wf s1" using wf by (simp add: wma_wf_def)
qed


lemma slot_distinct:
  fixes K n j :: nat
  assumes "0 < j" and "j < n"
  shows "(K + n - j) mod n \<noteq> K mod n"
proof
  assume eq: "(K + n - j) mod n = K mod n"
  have le: "K + n - j \<le> K + n" by simp
  have "(K + n) mod n = (K + n - j) mod n"
    using eq by simp
  then have "n dvd (K + n) - (K + n - j)"
    using mod_eq_dvd_iff_nat [OF le, of n] by blast
  moreover have "(K + n) - (K + n - j) = j" using assms by simp
  ultimately have "n dvd j" by simp
  then have "n \<le> j" using assms(1) by (rule dvd_imp_le)
  with assms(2) show False by simp
qed

lemma unat_succ_word:
  "unat (w + 1 :: 'w::len word) = (unat w + 1) mod 2 ^ LENGTH('w)"
  by (simp add: unat_word_ariths)

lemma ring_inv_init: "k s = 0 \<Longrightarrow> ring_inv s []"
  by (simp add: ring_inv_def in_step_def)

lemma ring_inv_step:
  fixes s s' :: "('w::len, 'f) wma_f_t"
  assumes inv: "ring_inv s xs" and wf: "wma_wf s" and nz: "size_wma s \<noteq> 0"
    and add: "wma_f_add ar s x = Inr s'"
  shows "ring_inv s' (xs @ [x])"
proof -
  let ?n = "unat (size_wma s)"
  let ?K = "unat (k s)"
  let ?K' = "unat (k s + 1)"
  let ?M = "(2::nat) ^ LENGTH('w)"
  note f = wma_f_add_fields [OF wf nz add]
  have npos: "0 < ?n" using nz by (simp add: unat_gt_0)
  have len: "length (buffer s) = ?n" using wf by (simp add: wma_wf_def)
  have K': "?K' = (?K + 1) mod ?M" by (rule unat_succ_word)
  have Klen: "?K = length xs mod ?M" using inv by (simp add: ring_inv_def)
  have cnt: "?K' = length (xs @ [x]) mod ?M"
    using K' Klen by (simp add: mod_Suc_eq)
  have slots: "buffer s' ! ((?K' + ?n - 1 - j) mod ?n) = rev (xs @ [x]) ! j"
    if j: "j < min (in_step s' (xs @ [x])) ?n" for j
  proof -
    have aligned: "?K' mod ?n = (?K + 1) mod ?n \<and> in_step s' (xs @ [x]) \<le> in_step s xs + 1"
    proof (cases "?n dvd ?M")
      case True
      then have "?K' mod ?n = (?K + 1) mod ?n"
        unfolding K' by (rule mod_mod_cancel)
      then show ?thesis using True f by (simp add: in_step_def)
    next
      case False
      then have "in_step s' (xs @ [x]) = ?K'" using f by (simp add: in_step_def)
      with j have "?K' \<noteq> 0" by simp
      have "?K < ?M" by (rule unsigned_less)
      then have "?K + 1 \<le> ?M" by linarith
      have "?K + 1 \<noteq> ?M"
      proof
        assume "?K + 1 = ?M"
        then have "?K' = 0" using K' by simp
        with \<open>?K' \<noteq> 0\<close> show False by simp
      qed
      with \<open>?K + 1 \<le> ?M\<close> have "?K + 1 < ?M" by simp
      then have "?K' = ?K + 1" using K' by simp
      then show ?thesis using False f by (simp add: in_step_def)
    qed
    have jn: "j < ?n" using j by simp
    have "(?K' + ?n - 1 - j) mod ?n = (?K' + (?n - 1 - j)) mod ?n"
      using jn by simp
    also have "\<dots> = (?K' mod ?n + (?n - 1 - j)) mod ?n"
      by (simp add: mod_add_left_eq)
    also have "\<dots> = ((?K + 1) + (?n - 1 - j)) mod ?n"
      using aligned by (simp add: mod_add_left_eq)
    also have "(?K + 1) + (?n - 1 - j) = ?K + ?n - j"
      using jn by linarith
    finally have slot: "(?K' + ?n - 1 - j) mod ?n = (?K + ?n - j) mod ?n" .
    show ?thesis
    proof (cases j)
      case 0
      have "?K mod ?n < length (buffer s)" using npos len by simp
      then show ?thesis using slot 0 f by simp
    next
      case (Suc i)
      then have "0 < j" by simp
      then have ne: "(?K + ?n - j) mod ?n \<noteq> ?K mod ?n"
        using jn by (rule slot_distinct)
      have i: "i < min (in_step s xs) ?n"
        using j aligned Suc by simp
      have "\<forall>j < min (in_step s xs) ?n. buffer s ! ((?K + ?n - 1 - j) mod ?n) = rev xs ! j"
        using inv unfolding ring_inv_def by blast
      with i have "buffer s ! ((?K + ?n - 1 - i) mod ?n) = rev xs ! i"
        by blast
      moreover have "?K + ?n - 1 - i = ?K + ?n - j" using Suc by simp
      ultimately have "buffer s ! ((?K + ?n - j) mod ?n) = rev xs ! i" by simp
      then show ?thesis using slot ne f Suc by simp
    qed
  qed
  show ?thesis
    unfolding ring_inv_def
  proof (intro conjI allI impI)
    show "unat (k s') = length (xs @ [x]) mod ?M" using cnt f by simp
  next
    fix j assume "j < min (in_step s' (xs @ [x])) (unat (size_wma s'))"
    then have "j < min (in_step s' (xs @ [x])) ?n" using f by simp
    from slots [OF this] show "buffer s' ! ((unat (k s') + unat (size_wma s') - 1 - j)
        mod unat (size_wma s')) = rev (xs @ [x]) ! j"
      using f by simp
  qed
qed

lemma ring_inv_add_all:
  "ring_inv s xs \<Longrightarrow> wma_wf s \<Longrightarrow> size_wma s \<noteq> 0 \<Longrightarrow> add_all ar s ys = Inr s' \<Longrightarrow>
   ring_inv s' (xs @ ys)"
proof (induction ys arbitrary: s xs)
  case Nil
  then show ?case by simp
next
  case (Cons y ys)
  from Cons.prems(4) obtain s1 where s1: "wma_f_add ar s y = Inr s1"
    and rest: "add_all ar s1 ys = Inr s'"
    by (auto split: sum.splits)
  note f = wma_f_add_fields [OF Cons.prems(2,3) s1]
  have "ring_inv s1 (xs @ [y])"
    using Cons.prems(1,2,3) s1 by (rule ring_inv_step)
  moreover have "size_wma s1 \<noteq> 0" using f Cons.prems(3) by simp
  ultimately have "ring_inv s' ((xs @ [y]) @ ys)"
    using f(6) rest by (intro Cons.IH)
  then show ?case by simp
qed

lemma in_step_le: "ring_inv s xs \<Longrightarrow> in_step s xs \<le> length xs"
  by (simp add: ring_inv_def in_step_def)

lemma ring_window_last_n:
  assumes inv: "ring_inv s xs" and full: "unat (size_wma s) \<le> in_step s xs"
  shows "ring_window (buffer s) (unat (k s) mod unat (size_wma s)) (unat (size_wma s)) =
           last_n (unat (size_wma s)) xs"
proof (rule nth_equalityI)
  let ?n = "unat (size_wma s)"
  let ?K = "unat (k s)"
  have nL: "?n \<le> length xs" using in_step_le [OF inv] full by simp
  show "length (ring_window (buffer s) (?K mod ?n) ?n) = length (last_n ?n xs)"
    using nL by (simp add: ring_window_def last_n_def)
  fix i assume "i < length (ring_window (buffer s) (?K mod ?n) ?n)"
  then have i: "i < ?n" by (simp add: ring_window_def)
  let ?j = "?n - 1 - i"
  have j: "?j < min (in_step s xs) ?n" using i full by simp
  have "\<forall>j < min (in_step s xs) ?n. buffer s ! ((?K + ?n - 1 - j) mod ?n) = rev xs ! j"
    using inv unfolding ring_inv_def by blast
  with j have "buffer s ! ((?K + ?n - 1 - ?j) mod ?n) = rev xs ! ?j"
    by blast
  moreover have "?K + ?n - 1 - ?j = i + ?K" using i by simp
  moreover have "rev xs ! ?j = xs ! (length xs - ?n + i)"
    using i nL by (simp add: rev_nth)
  ultimately have "buffer s ! ((i + ?K) mod ?n) = xs ! (length xs - ?n + i)" by simp
  then show "ring_window (buffer s) (?K mod ?n) ?n ! i = last_n ?n xs ! i"
    using i nL by (simp add: ring_window_def last_n_def mod_add_right_eq)
qed

subsection \<open>Runs of the small instance and the warm-up phase\<close>

lemma small_wma_wf: "wma_wf small_wma"
  by (simp add: wma_wf_def small_wma_def)

lemma small_wma_init: "wma_f_init exact_arith small_wma = Inr (ERROR_NONE, small_wma_ready)"
  by (simp add: wma_f_init_eq small_wma_def small_wma_ready_def exact_arith_def)

lemma small_wma_ready_wf: "wma_wf small_wma_ready" "size_wma small_wma_ready \<noteq> 0"
  by (simp_all add: wma_wf_def small_wma_ready_def)

lemma small_add1:
  "wma_f_add exact_arith small_wma_ready (Fin 5) =
     Inr \<lparr>k = 1, size_wma = 2, avg = Fin 0, sum_weight = Fin 4,
      weight = [Fin 1, Fin 3], buffer = [Fin 5, Fin 8]\<rparr>"
  by (simp add: wma_f_add_eq small_wma_ready_wf) (simp add: small_wma_ready_def)

lemma small_add2:
  "wma_f_add exact_arith \<lparr>k = 1 :: 16 word, size_wma = 2, avg = Fin 0, sum_weight = Fin 4,
      weight = [Fin 1, Fin 3], buffer = [Fin 5, Fin 8]\<rparr> (Fin 6) =
     Inr \<lparr>k = 2, size_wma = 2, avg = Fin (23 / 4), sum_weight = Fin 4,
      weight = [Fin 1, Fin 3], buffer = [Fin 5, Fin 6]\<rparr>"
  by (subst wma_f_add_eq)
     (simp_all add: wma_wf_def window_average_def weighted_total_def ring_window_def upt_rec
        exact_arith_def)

lemma warm_up_run:
  fixes s :: "('w::len, 'f) wma_f_t"
  shows "wma_wf s \<Longrightarrow> size_wma s \<noteq> 0 \<Longrightarrow> unat (k s) + length xs < unat (size_wma s) \<Longrightarrow>
    \<exists>s2. add_all ar s xs = Inr s2 \<and> avg s2 = avg s"
proof (induction xs arbitrary: s)
  case Nil
  then show ?case by simp
next
  case (Cons x xs)
  from wma_f_add_eq [OF Cons.prems(1,2), of ar x]
  obtain s1 where s1: "wma_f_add ar s x = Inr s1" by blast
  note f = wma_f_add_fields [OF Cons.prems(1,2) s1]
  have "unat (k s + 1) \<le> unat (k s) + 1"
    unfolding unat_succ_word by (rule mod_less_eq_dividend)
  then have small: "unat (k s1) + length xs < unat (size_wma s1)"
    using f Cons.prems(3) by simp
  then have "unat (k s1) < unat (size_wma s1)" by simp
  then have avg1: "avg s1 = avg s"
    using wma_f_add_avg [OF Cons.prems(1,2) s1] by simp
  have "size_wma s1 \<noteq> 0" using f Cons.prems(2) by simp
  from Cons.IH [OF f(6) this small] avg1 s1 show ?case by simp
qed

lemma last_n_nth: "n \<le> length ys \<Longrightarrow> last_n n ys ! i = ys ! (length ys - n + i)"
  by (simp add: last_n_def)

subsection \<open>The long run up to the wrap-around of the counter\<close>

lemma sample_ramp_split:
  "sample_ramp (b + 2) = sample_ramp b @ [Fin (of_nat b), Fin (of_nat (b + 1))]"
  by (simp add: sample_ramp_def)

lemma length_sample_ramp: "length (sample_ramp b) = b"
  by (simp add: sample_ramp_def)

lemma last_n_ramp:
  "last_n 3 (sample_ramp (c + 3)) = [Fin (of_nat c), Fin (of_nat (c + 1)), Fin (of_nat (c + 2))]"
proof -
  have "drop c [0..<c + 3] = [c..<c + 3]"
    by (simp only: drop_upt) simp
  also have "\<dots> = [c, c + 1, c + 2]"
    by (simp add: upt_rec)
  finally show ?thesis
    by (simp add: last_n_def sample_ramp_def drop_map)
qed

lemma buffer_from_window:
  assumes "length buf = 3" and "ring_window buf 0 3 = [a, b, c]"
  shows "buf = [a, b, c]"
proof -
  from assms(1) have "length buf = Suc (Suc (Suc 0))" by simp
  then obtain x y z where buf: "buf = [x, y, z]"
    by (auto simp: length_Suc_conv)
  have "ring_window [x, y, z] 0 3 = [x, y, z]"
    by (simp add: ring_window_def upt_rec)
  with assms(2) buf show ?thesis by simp
qed

lemma overflow_prefix:
  assumes run: "add_all exact_arith (overflow_wma\<lparr>sum_weight := Fin 3\<rparr>) (sample_ramp 65535) = Inr s"
  shows "k s = 65535" and "buffer s = [Fin 65532, Fin 65533, Fin 65534]"
    and "wma_wf s" and "size_wma s = 3"
proof -
  let ?s1 = "overflow_wma\<lparr>sum_weight := Fin 3\<rparr>"
  have wf1: "wma_wf ?s1" and nz1: "size_wma ?s1 \<noteq> 0"
    by (simp_all add: wma_wf_def overflow_wma_def)
  from add_all_total [OF wf1 nz1, of exact_arith "sample_ramp 65535"] run
  show wf: "wma_wf s" and sz: "size_wma s = 3"
    by (auto simp: overflow_wma_def)
  have "ring_inv ?s1 []" by (rule ring_inv_init) (simp add: overflow_wma_def)
  then have "ring_inv s ([] @ sample_ramp 65535)"
    using wf1 nz1 run by (rule ring_inv_add_all)
  then have inv: "ring_inv s (sample_ramp 65535)" by simp
  have len: "length (sample_ramp 65535) = 65535" by (rule length_sample_ramp)
  from inv have "unat (k s) = 65535 mod 2 ^ LENGTH(16)"
    unfolding ring_inv_def len by blast
  then have uk: "unat (k s) = 65535" by simp
  then have "unat (k s) = unat (65535 :: 16 word)" by simp
  then show kk: "k s = 65535" by (simp only: word_unat_eq_iff)
  have "\<not> (3::nat) dvd 2 ^ LENGTH(16)" by simp
  then have "in_step s (sample_ramp 65535) = 65535"
    using sz uk by (simp add: in_step_def)
  then have "unat (size_wma s) \<le> in_step s (sample_ramp 65535)" using sz by simp
  with inv have "ring_window (buffer s) (unat (k s) mod unat (size_wma s)) (unat (size_wma s)) =
      last_n (unat (size_wma s)) (sample_ramp 65535)"
    by (rule ring_window_last_n)
  moreover have "last_n 3 (sample_ramp 65535) = [Fin 65532, Fin 65533, Fin 65534]"
    using last_n_ramp [of 65532] by simp
  ultimately have win: "ring_window (buffer s) 0 3 = [Fin 65532, Fin 65533, Fin 65534]"
    using sz uk by simp
  have "length (buffer s) = 3" using wf sz by (simp add: wma_wf_def)
  then show "buffer s = [Fin 65532, Fin 65533, Fin 65534]"
    using win by (rule buffer_from_window)
qed

lemma overflow_init:
  "wma_f_init exact_arith overflow_wma = Inr (ERROR_NONE, overflow_wma\<lparr>sum_weight := Fin 3\<rparr>)"
  by (simp add: wma_f_init_eq overflow_wma_def exact_arith_def)

lemma small_run2:
  "add_all exact_arith small_wma_ready [Fin 5, Fin 6] =
     Inr \<lparr>k = 2, size_wma = 2, avg = Fin (23 / 4), sum_weight = Fin 4,
          weight = [Fin 1, Fin 3], buffer = [Fin 5, Fin 6]\<rparr>"
  by (simp add: small_add1 small_add2)

subsection \<open>The window and the average after a run\<close>

lemma window_after_run:
  fixes s0 :: "('w::len, 'f) wma_f_t"
  assumes wf: "wma_wf s0" and init: "wma_f_init ar s0 = Inr (ERROR_NONE, s1)"
    and run: "add_all ar s1 xs = Inr s2"
    and full: "unat (size_wma s2) \<le> in_step s2 xs"
  shows "ring_window (buffer s2) (unat (k s2) mod unat (size_wma s2)) (unat (size_wma s2)) =
           last_n (unat (size_wma s2)) xs"
proof -
  note i = wma_f_init_ok [OF wf init]
  have nz1: "size_wma s1 \<noteq> 0" using i by simp
  have "ring_inv s1 []" using i by (intro ring_inv_init)
  then have "ring_inv s2 ([] @ xs)"
    using i(2) nz1 run by (rule ring_inv_add_all)
  then have "ring_inv s2 xs" by simp
  then show ?thesis using full by (rule ring_window_last_n)
qed

lemma count_after_run:
  fixes s0 :: "('w::len, 'f) wma_f_t"
  assumes wf: "wma_wf s0" and init: "wma_f_init ar s0 = Inr (ERROR_NONE, s1)"
    and run: "add_all ar s1 xs = Inr s2"
  shows "unat (k s2) = length xs mod 2 ^ LENGTH('w)"
proof -
  note i = wma_f_init_ok [OF wf init]
  have nz1: "size_wma s1 \<noteq> 0" using i by simp
  have "ring_inv s1 []" using i by (intro ring_inv_init)
  then have "ring_inv s2 ([] @ xs)"
    using i(2) nz1 run by (rule ring_inv_add_all)
  then show ?thesis by (simp add: ring_inv_def)
qed

lemma in_step_full:
  fixes s :: "('w::len, 'f) wma_f_t"
  assumes cnt: "unat (k s) = length xs mod 2 ^ LENGTH('w)"
    and full: "unat (size_wma s) \<le> unat (k s)"
  shows "unat (size_wma s) \<le> in_step s xs"
proof (cases "unat (size_wma s) dvd 2 ^ LENGTH('w)")
  case True
  have "length xs mod 2 ^ LENGTH('w) \<le> length xs" by (rule mod_less_eq_dividend)
  with cnt full have "unat (size_wma s) \<le> length xs" by linarith
  with True show ?thesis by (simp add: in_step_def)
next
  case False
  with full show ?thesis by (simp add: in_step_def)
qed

lemma average_after_run:
  fixes s0 :: "('w::len, 'f) wma_f_t"
  assumes wf: "wma_wf s0" and init: "wma_f_init ar s0 = Inr (ERROR_NONE, s1)"
    and run: "add_all ar s1 xs = Inr s2" and ne: "xs \<noteq> []"
    and full: "unat (size_wma s2) \<le> unat (k s2)"
  shows "avg s2 = window_average ar (weight s0) (foldl (f_add ar) (f_zero ar) (weight s0))
           (last_n (unat (size_wma s0)) xs)"
proof -
  note i = wma_f_init_ok [OF wf init]
  have nz1: "size_wma s1 \<noteq> 0" using i by simp
  from ne obtain ys y where xs: "xs = ys @ [y]" by (cases xs rule: rev_cases) auto
  from run obtain s' where s': "add_all ar s1 ys = Inr s'"
    and add: "wma_f_add ar s' y = Inr s2"
    unfolding xs add_all_append by (auto split: sum.splits)
  from add_all_total [OF i(2) nz1, of ar ys] s'
  have p: "wma_wf s'" "size_wma s' = size_wma s1" "weight s' = weight s1"
    "sum_weight s' = sum_weight s1" by auto
  have nz': "size_wma s' \<noteq> 0" using p nz1 by simp
  note f = wma_f_add_fields [OF p(1) nz' add]
  have "unat (size_wma s2) \<le> in_step s2 xs"
    using count_after_run [OF wf init run] full by (rule in_step_full)
  with wf init run
  have "ring_window (buffer s2) (unat (k s2) mod unat (size_wma s2)) (unat (size_wma s2)) =
      last_n (unat (size_wma s2)) xs"
    by (rule window_after_run)
  then show ?thesis
    using wma_f_add_avg [OF p(1) nz' add] full f p i by simp
qed

lemma usage_wma_init:
  "wma_f_init ar (usage_wma lit buf :: ('w::len, 'f) wma_f_t) =
     Inr (ERROR_NONE, (usage_wma lit buf)\<lparr>avg := f_zero ar, k := 0,
       sum_weight := foldl (f_add ar) (f_zero ar) (usage_weights lit)\<rparr>)"
proof -
  have "size_wma (usage_wma lit buf :: ('w, 'f) wma_f_t) \<noteq> 0"
    by (simp add: usage_wma_def)
  moreover have "length (weight (usage_wma lit buf :: ('w, 'f) wma_f_t)) =
      unat (size_wma (usage_wma lit buf :: ('w, 'f) wma_f_t))"
    by (simp add: usage_wma_def usage_weights_def)
  ultimately show ?thesis
    using wma_f_init_eq [of "usage_wma lit buf :: ('w, 'f) wma_f_t" ar]
    by (simp add: usage_wma_def)
qed

lemma usage_wma_wf: "length buf = 8 \<Longrightarrow> wma_wf (usage_wma lit buf)"
  by (simp add: wma_wf_def usage_wma_def usage_weights_def)

lemma usage_exact_sum: "foldl x_add (Fin 0) (usage_weights Fin) = Fin (49 / 20)"
  by (simp add: usage_weights_def)

lemma usage_exact_avg8:
  "window_average exact_arith (usage_weights Fin) (Fin (49 / 20)) (take 8 (usage_samples Fin)) =
     Fin (2277 / 140)"
  by (simp add: window_average_def weighted_total_def usage_weights_def usage_samples_def
      exact_arith_def)

lemma usage_exact_avg10:
  "window_average exact_arith (usage_weights Fin) (Fin (49 / 20)) (drop 2 (usage_samples Fin)) =
     Fin (285 / 28)"
  by (simp add: window_average_def weighted_total_def usage_weights_def usage_samples_def
      exact_arith_def)

subsection \<open>Two runs on the same samples\<close>

lemma agree_step:
  fixes s t :: "('w::len, 'f) wma_f_t"
  assumes ag: "agree s t l" and adds: "wma_f_add ar s x = Inr s'"
    and addt: "wma_f_add ar t x = Inr t'"
  shows "agree s' t' (Suc l)"
proof -
  let ?n = "unat (size_wma s)"
  let ?M = "(2::nat) ^ LENGTH('w)"
  let ?p = "unat (k s) mod ?n"
  from ag have wfs: "wma_wf s" and wft: "wma_wf t" and nz: "size_wma s \<noteq> 0"
    and sz: "size_wma s = size_wma t" and we: "weight s = weight t"
    and sw: "sum_weight s = sum_weight t" and ke: "k s = k t" and av: "avg s = avg t"
    and cnt: "unat (k s) = l mod ?M"
    unfolding agree_def by blast+
  from ag have slots: "\<forall>i < min l (min ?n ?M). buffer s ! i = buffer t ! i"
    unfolding agree_def by blast
  have nzt: "size_wma t \<noteq> 0" using nz sz by simp
  note f = wma_f_add_fields [OF wfs nz adds]
  note g = wma_f_add_fields [OF wft nzt addt]
  have npos: "0 < ?n" using nz by (simp add: unat_gt_0)
  have lens: "length (buffer s) = ?n" "length (buffer t) = ?n"
    using wfs wft sz by (simp_all add: wma_wf_def)
  have bs: "buffer s' = (buffer s)[?p := x]" using f by simp
  have bt: "buffer t' = (buffer t)[?p := x]" using g ke sz by simp
  have cnt': "unat (k s') = Suc l mod ?M"
    using f(4) cnt by (simp add: unat_succ_word mod_Suc_eq)
  have slots': "buffer s' ! i = buffer t' ! i" if i: "i < min (Suc l) (min ?n ?M)" for i
  proof (cases "i = ?p")
    case True
    have "?p < ?n" using npos by simp
    then show ?thesis using True bs bt lens by simp
  next
    case False
    have "i < min l (min ?n ?M)"
    proof (rule ccontr)
      assume "\<not> i < min l (min ?n ?M)"
      with i have il: "i = l" and ln: "l < ?n" and lM: "l < ?M" by simp_all
      from cnt lM have "unat (k s) = l" by simp
      with ln have "?p = l" by simp
      with il False show False by simp
    qed
    with slots have "buffer s ! i = buffer t ! i" by blast
    with False show ?thesis using bs bt by simp
  qed
  have avg': "avg s' = avg t'"
  proof (cases "unat (k s') < unat (size_wma s')")
    case True
    then have "unat (k t') < unat (size_wma t')" using f g ke sz by simp
    with True show ?thesis
      using wma_f_add_avg [OF wfs nz adds] wma_f_add_avg [OF wft nzt addt] av by simp
  next
    case False
    then have full: "?n \<le> unat (k s')" using f by simp
    have "unat (k s') < ?M" by (rule unsigned_less)
    with full have nM: "?n \<le> ?M" by linarith
    have "Suc l mod ?M \<le> Suc l" by (rule mod_less_eq_dividend)
    with full cnt' have nl: "?n \<le> Suc l" by linarith
    have "buffer s' = buffer t'"
    proof (rule nth_equalityI)
      show "length (buffer s') = length (buffer t')" using bs bt lens by simp
      fix i assume "i < length (buffer s')"
      then have "i < ?n" using bs lens by simp
      with nM nl have "i < min (Suc l) (min ?n ?M)" by simp
      then show "buffer s' ! i = buffer t' ! i" by (rule slots')
    qed
    moreover from False have "\<not> unat (k t') < unat (size_wma t')" using f g ke sz by simp
    ultimately show ?thesis
      using wma_f_add_avg [OF wfs nz adds] wma_f_add_avg [OF wft nzt addt] False f g ke sz we sw
      by simp
  qed
  show ?thesis
    unfolding agree_def
  proof (intro conjI allI impI)
    fix i assume "i < min (Suc l) (min (unat (size_wma s')) ?M)"
    then have "i < min (Suc l) (min ?n ?M)" using f by simp
    then show "buffer s' ! i = buffer t' ! i" by (rule slots')
  qed (use f g nz sz we sw ke avg' cnt' in simp_all)
qed

lemma agree_run:
  "agree s t l \<Longrightarrow> add_all ar s xs = Inr s' \<Longrightarrow> add_all ar t xs = Inr t' \<Longrightarrow>
   agree s' t' (l + length xs)"
proof (induction xs arbitrary: s t l)
  case Nil
  then show ?case by simp
next
  case (Cons x xs)
  from Cons.prems(2) obtain s1 where s1: "wma_f_add ar s x = Inr s1"
    and rs: "add_all ar s1 xs = Inr s'"
    by (auto split: sum.splits)
  from Cons.prems(3) obtain t1 where t1: "wma_f_add ar t x = Inr t1"
    and rt: "add_all ar t1 xs = Inr t'"
    by (auto split: sum.splits)
  have "agree s1 t1 (Suc l)" using Cons.prems(1) s1 t1 by (rule agree_step)
  then have "agree s' t' (Suc l + length xs)" using rs rt by (rule Cons.IH)
  then show ?case by simp
qed

lemma agree_init:
  assumes "wma_wf s0" and "wma_wf t0" and "size_wma s0 = size_wma t0"
    and "weight s0 = weight t0"
    and "wma_f_init ar s0 = Inr (ERROR_NONE, s1)" and "wma_f_init ar t0 = Inr (ERROR_NONE, t1)"
  shows "agree s1 t1 0"
proof -
  note i = wma_f_init_ok [OF assms(1,5)]
  note j = wma_f_init_ok [OF assms(2,6)]
  show ?thesis
    unfolding agree_def using i j assms(3,4) by simp
qed

lemma stale_wma_wf: "wma_wf stale_wma"
  by (simp add: wma_wf_def stale_wma_def)

lemma stale_wma_init:
  "wma_f_init exact_arith stale_wma =
     Inr (ERROR_NONE, \<lparr>k = 0, size_wma = 2, avg = Fin 0, sum_weight = Fin 4,
            weight = [Fin 1, Fin 3], buffer = [Fin 7, Fin 9]\<rparr>)"
  by (simp add: wma_f_init_eq stale_wma_def exact_arith_def)

lemma stale_add1:
  "wma_f_add exact_arith \<lparr>k = 0 :: 16 word, size_wma = 2, avg = Fin 0, sum_weight = Fin 4,
      weight = [Fin 1, Fin 3], buffer = [Fin 7, Fin 9]\<rparr> (Fin 5) =
     Inr \<lparr>k = 1, size_wma = 2, avg = Fin 0, sum_weight = Fin 4,
          weight = [Fin 1, Fin 3], buffer = [Fin 5, Fin 9]\<rparr>"
  by (subst wma_f_add_eq) (simp_all add: wma_wf_def)

lemma stale_add2:
  "wma_f_add exact_arith \<lparr>k = 1 :: 16 word, size_wma = 2, avg = Fin 0, sum_weight = Fin 4,
      weight = [Fin 1, Fin 3], buffer = [Fin 5, Fin 9]\<rparr> (Fin 6) =
     Inr \<lparr>k = 2, size_wma = 2, avg = Fin (23 / 4), sum_weight = Fin 4,
          weight = [Fin 1, Fin 3], buffer = [Fin 5, Fin 6]\<rparr>"
  by (subst wma_f_add_eq)
     (simp_all add: wma_wf_def window_average_def weighted_total_def ring_window_def
        exact_arith_def upt_rec)

lemma stale_run2:
  "add_all exact_arith \<lparr>k = 0 :: 16 word, size_wma = 2, avg = Fin 0, sum_weight = Fin 4,
      weight = [Fin 1, Fin 3], buffer = [Fin 7, Fin 9]\<rparr> [Fin 5, Fin 6] =
     Inr \<lparr>k = 2, size_wma = 2, avg = Fin (23 / 4), sum_weight = Fin 4,
          weight = [Fin 1, Fin 3], buffer = [Fin 5, Fin 6]\<rparr>"
  by (simp add: stale_add1 stale_add2)

subsection \<open>Weights that are all zero\<close>

lemma foldl_zero:
  "f_add ar (f_zero ar) (f_zero ar) = f_zero ar \<Longrightarrow> set ws \<subseteq> {f_zero ar} \<Longrightarrow>
   foldl (f_add ar) (f_zero ar) ws = f_zero ar"
  by (induction ws) simp_all

lemma zero_weights_wf: "wma_wf zero_weights_wma"
  by (simp add: wma_wf_def zero_weights_wma_def)

lemma zero_weights_init:
  "wma_f_init exact_arith zero_weights_wma = Inr (ERROR_NONE, zero_weights_wma)"
  by (simp add: wma_f_init_eq zero_weights_wma_def exact_arith_def)

lemma zero_weights_add1:
  "add_all exact_arith zero_weights_wma [Fin 5] =
     Inr \<lparr>k = 1, size_wma = 2, avg = Fin 0, sum_weight = Fin 0,
          weight = [Fin 0, Fin 0], buffer = [Fin 5, Fin 0]\<rparr>"
proof -
  have "wma_wf zero_weights_wma" "size_wma zero_weights_wma \<noteq> 0"
    by (simp_all add: wma_wf_def zero_weights_wma_def)
  then show ?thesis
    by (simp add: wma_f_add_eq) (simp add: zero_weights_wma_def)
qed

lemma zero_weights_add2:
  "wma_f_add exact_arith \<lparr>k = 1 :: 16 word, size_wma = 2, avg = Fin 0, sum_weight = Fin 0,
      weight = [Fin 0, Fin 0], buffer = [Fin 5, Fin 0]\<rparr> (Fin 6) =
     Inr \<lparr>k = 2, size_wma = 2, avg = NaN, sum_weight = Fin 0,
          weight = [Fin 0, Fin 0], buffer = [Fin 5, Fin 6]\<rparr>"
  by (subst wma_f_add_eq)
     (simp_all add: wma_wf_def window_average_def weighted_total_def ring_window_def
        exact_arith_def upt_rec)

lemma odd_weights_init:
  "wma_f_init exact_arith odd_weights_wma =
     Inr (ERROR_NONE, odd_weights_wma\<lparr>sum_weight := NaN\<rparr>)"
  by (simp add: wma_f_init_eq odd_weights_wma_def exact_arith_def)

subsection \<open>The small instance up to the wrap-around of the counter\<close>

lemma sample_ramp_snoc: "sample_ramp (b + 1) = sample_ramp b @ [Fin (of_nat b)]"
  by (simp add: sample_ramp_def)

lemma last_n_ramp2:
  "last_n 2 (sample_ramp (c + 2)) = [Fin (of_nat c), Fin (of_nat (c + 1))]"
proof -
  have "drop c [0..<c + 2] = [c..<c + 2]"
    by (simp only: drop_upt) simp
  also have "\<dots> = [c, c + 1]"
    by (simp add: upt_rec)
  finally show ?thesis
    by (simp add: last_n_def sample_ramp_def drop_map)
qed

lemma small_wrap_prefix:
  assumes run: "add_all exact_arith small_wma_ready (sample_ramp 65535) = Inr s"
  shows "k s = 65535" and "avg s = Fin (262135 / 4)" and "wma_wf s" and "size_wma s = 2"
proof -
  from add_all_total [OF small_wma_ready_wf, of exact_arith "sample_ramp 65535"] run
  show wf: "wma_wf s" and sz: "size_wma s = 2"
    by (auto simp: small_wma_ready_def)
  have len: "length (sample_ramp 65535) = 65535" by (rule length_sample_ramp)
  have "unat (k s) = length (sample_ramp 65535) mod 2 ^ LENGTH(16)"
    using small_wma_wf small_wma_init run by (rule count_after_run)
  then have uk: "unat (k s) = 65535" unfolding len by simp
  then have "unat (k s) = unat (65535 :: 16 word)" by simp
  then show "k s = 65535" by (simp only: word_unat_eq_iff)
  have ne: "sample_ramp 65535 \<noteq> []" using len by auto
  have full: "unat (size_wma s) \<le> unat (k s)" using sz uk by simp
  have "avg s = window_average exact_arith (weight small_wma)
      (foldl (f_add exact_arith) (f_zero exact_arith) (weight small_wma))
      (last_n (unat (size_wma small_wma)) (sample_ramp 65535))"
    using small_wma_wf small_wma_init run ne full by (rule average_after_run)
  moreover have "last_n 2 (sample_ramp 65535) = [Fin 65533, Fin 65534]"
    using last_n_ramp2 [of 65533] by simp
  moreover have "unat (size_wma small_wma) = 2" "weight small_wma = [Fin 1, Fin 3]"
    by (simp_all add: small_wma_def)
  ultimately have "avg s = window_average exact_arith [Fin 1, Fin 3]
      (foldl (f_add exact_arith) (f_zero exact_arith) [Fin 1, Fin 3]) [Fin 65533, Fin 65534]"
    by simp
  then show "avg s = Fin (262135 / 4)"
    by (simp add: window_average_def weighted_total_def exact_arith_def)
qed

section \<open>Initialisation\<close>

text \<open>
  C4. \<open>wma_f_init\<close> returns \<open>ERROR_UNEXPECTEDVALUE\<close> exactly when the window size is 0,
  and it then returns the instance as it was: no field has been written.
\<close>

theorem wma_f_init_error_iff_zero_size:
  "((\<exists>wma'. wma_f_init ar wma = Inr (ERROR_UNEXPECTEDVALUE, wma')) \<longleftrightarrow> size_wma wma = 0) \<and>
   (size_wma wma = 0 \<longrightarrow> wma_f_init ar wma = Inr (ERROR_UNEXPECTEDVALUE, wma))"
  by (auto simp: wma_f_init_def split: sum.splits)

theorem wma_f_init_error_iff_zero_size_witness:
  "size_wma \<lparr>k = 5 :: 16 word, size_wma = 0, avg = Fin 3, sum_weight = Fin 2,
      weight = [Fin 1], buffer = [Fin 7]\<rparr> = 0 \<and>
   wma_f_init exact_arith \<lparr>k = 5 :: 16 word, size_wma = 0, avg = Fin 3, sum_weight = Fin 2,
      weight = [Fin 1], buffer = [Fin 7]\<rparr> =
     Inr (ERROR_UNEXPECTEDVALUE, \<lparr>k = 5, size_wma = 0, avg = Fin 3, sum_weight = Fin 2,
      weight = [Fin 1], buffer = [Fin 7]\<rparr>)"
  using wma_f_init_error_iff_zero_size [of exact_arith
      "\<lparr>k = 5 :: 16 word, size_wma = 0, avg = Fin 3, sum_weight = Fin 2,
        weight = [Fin 1], buffer = [Fin 7]\<rparr>"]
  by simp

text \<open>
  C5. With a window size other than 0 and a weight array of that length, \<open>wma_f_init\<close>
  succeeds; afterwards the sample count is 0, the average is 0, and the weight sum is the
  \<open>float\<close> sum of the weights, added from the left starting from 0.
\<close>

theorem wma_f_init_resets:
  assumes "size_wma wma \<noteq> 0" and "length (weight wma) = unat (size_wma wma)"
  shows "\<exists>wma'. wma_f_init ar wma = Inr (ERROR_NONE, wma') \<and> k wma' = 0 \<and>
           avg wma' = f_zero ar \<and>
           sum_weight wma' = foldl (f_add ar) (f_zero ar) (weight wma)"
  using wma_f_init_eq [OF assms, of ar] by simp

theorem wma_f_init_resets_witness:
  "size_wma (usage_wma Fin [Fin 9, Fin 9, Fin 9, Fin 9, Fin 9, Fin 9, Fin 9, Fin 9]
      :: (16, xnum) wma_f_t) \<noteq> 0 \<and>
   length (weight (usage_wma Fin [Fin 9, Fin 9, Fin 9, Fin 9, Fin 9, Fin 9, Fin 9, Fin 9]
      :: (16, xnum) wma_f_t)) = 8 \<and>
   (\<exists>wma'. wma_f_init exact_arith
        (usage_wma Fin [Fin 9, Fin 9, Fin 9, Fin 9, Fin 9, Fin 9, Fin 9, Fin 9]
           :: (16, xnum) wma_f_t) = Inr (ERROR_NONE, wma') \<and>
      k wma' = 0 \<and> avg wma' = Fin 0 \<and> sum_weight wma' = Fin (49 / 20))"
  using wma_f_init_resets [of
      "usage_wma Fin [Fin 9, Fin 9, Fin 9, Fin 9, Fin 9, Fin 9, Fin 9, Fin 9]
         :: (16, xnum) wma_f_t" exact_arith]
  by (simp add: usage_wma_def usage_weights_def exact_arith_def)

text \<open>
  C9. A successful \<open>wma_f_init\<close> writes the fields \<open>avg\<close>, \<open>k\<close> and \<open>sum_weight\<close> and
  nothing else: the buffer keeps whatever it held, and the weights and the window size
  are as before.
\<close>

theorem wma_f_init_frame:
  assumes "size_wma wma \<noteq> 0" and "wma_f_init ar wma = Inr (err, wma')"
  shows "err = ERROR_NONE \<and>
         wma' = wma\<lparr>avg := avg wma', k := k wma', sum_weight := sum_weight wma'\<rparr> \<and>
         buffer wma' = buffer wma \<and> weight wma' = weight wma \<and>
         size_wma wma' = size_wma wma"
proof -
  let ?s = "wma\<lparr>avg := f_zero ar, k := 0, sum_weight := f_zero ar\<rparr>"
  from assms have err: "err = ERROR_NONE" and loop: "init_loop ar ?s 0 = Inr wma'"
    by (auto simp: wma_f_init_def split: sum.splits)
  from loop have eq: "wma' = ?s\<lparr>sum_weight := sum_weight wma'\<rparr>"
    by (rule init_loop_frame)
  have "avg wma' = f_zero ar" "k wma' = 0"
    by (subst eq, simp)+
  with eq have "wma' = wma\<lparr>avg := avg wma', k := k wma', sum_weight := sum_weight wma'\<rparr>"
    by simp
  moreover have "buffer wma' = buffer wma" "weight wma' = weight wma"
      "size_wma wma' = size_wma wma"
    by (subst eq, simp)+
  ultimately show ?thesis using err by simp
qed

theorem wma_f_init_frame_witness:
  "size_wma \<lparr>k = 9 :: 16 word, size_wma = 2, avg = Fin 4, sum_weight = Fin 5,
      weight = [Fin 1, Fin 3], buffer = [Fin 7, Fin 8]\<rparr> \<noteq> 0 \<and>
   wma_f_init exact_arith \<lparr>k = 9 :: 16 word, size_wma = 2, avg = Fin 4, sum_weight = Fin 5,
      weight = [Fin 1, Fin 3], buffer = [Fin 7, Fin 8]\<rparr> =
     Inr (ERROR_NONE, \<lparr>k = 0, size_wma = 2, avg = Fin 0, sum_weight = Fin 4,
      weight = [Fin 1, Fin 3], buffer = [Fin 7, Fin 8]\<rparr>) \<and>
   buffer \<lparr>k = 0 :: 16 word, size_wma = 2, avg = Fin 0, sum_weight = Fin 4,
      weight = [Fin 1, Fin 3], buffer = [Fin 7, Fin 8]\<rparr> = [Fin 7, Fin 8]"
proof -
  have run: "wma_f_init exact_arith \<lparr>k = 9 :: 16 word, size_wma = 2, avg = Fin 4,
      sum_weight = Fin 5, weight = [Fin 1, Fin 3], buffer = [Fin 7, Fin 8]\<rparr> =
     Inr (ERROR_NONE, \<lparr>k = 0, size_wma = 2, avg = Fin 0, sum_weight = Fin 4,
      weight = [Fin 1, Fin 3], buffer = [Fin 7, Fin 8]\<rparr>)"
    by (simp add: wma_f_init_def init_loop_eq exact_arith_def)
  have nz: "size_wma \<lparr>k = 9 :: 16 word, size_wma = 2, avg = Fin 4, sum_weight = Fin 5,
      weight = [Fin 1, Fin 3], buffer = [Fin 7, Fin 8]\<rparr> \<noteq> 0"
    by simp
  show ?thesis
    using wma_f_init_frame [OF nz run] run by simp
qed

section \<open>Adding samples\<close>

text \<open>
  C8. On an instance that \<open>wma_f_init\<close> accepted, and after any number of samples,
  \<open>wma_f_add\<close> returns for every sample value: the window size is not 0, so no
  remainder is taken by zero, and the slot it writes and every slot it reads lie below
  the window size, which is the length of both arrays.
\<close>

theorem wma_f_add_never_traps:
  assumes "wma_wf s0" and "wma_f_init ar s0 = Inr (ERROR_NONE, s1)"
  shows "\<exists>s2. add_all ar s1 xs = Inr s2 \<and> size_wma s2 \<noteq> 0 \<and>
           (\<exists>s3. wma_f_add ar s2 x = Inr s3) \<and>
           length (buffer s2) = unat (size_wma s2) \<and>
           length (weight s2) = unat (size_wma s2) \<and>
           unat (k s2) mod unat (size_wma s2) < unat (size_wma s2) \<and>
           (\<forall>i < unat (size_wma s2).
              (i + unat (k s2 + 1) mod unat (size_wma s2)) mod unat (size_wma s2)
                < unat (size_wma s2))"
proof -
  note i = wma_f_init_ok [OF assms]
  have nz1: "size_wma s1 \<noteq> 0" using i by simp
  from add_all_total [OF i(2) nz1, of ar xs]
  obtain s2 where s2: "add_all ar s1 xs = Inr s2" "wma_wf s2" "size_wma s2 = size_wma s1"
    by blast
  have nz2: "size_wma s2 \<noteq> 0" using s2 nz1 by simp
  then have npos: "0 < unat (size_wma s2)" by (simp add: unat_gt_0)
  have "\<exists>s3. wma_f_add ar s2 x = Inr s3"
    using wma_f_add_eq [OF s2(2) nz2, of ar x] by blast
  with s2 nz2 npos show ?thesis
    by (simp add: wma_wf_def)
qed

theorem wma_f_add_never_traps_witness:
  "wma_wf small_wma \<and> wma_f_init exact_arith small_wma = Inr (ERROR_NONE, small_wma_ready) \<and>
   (\<exists>s2. add_all exact_arith small_wma_ready [Fin 5] = Inr s2 \<and> size_wma s2 \<noteq> 0 \<and>
      (\<exists>s3. wma_f_add exact_arith s2 (Fin 6) = Inr s3) \<and>
      length (buffer s2) = unat (size_wma s2) \<and>
      length (weight s2) = unat (size_wma s2) \<and>
      unat (k s2) mod unat (size_wma s2) < unat (size_wma s2) \<and>
      (\<forall>i < unat (size_wma s2).
         (i + unat (k s2 + 1) mod unat (size_wma s2)) mod unat (size_wma s2)
           < unat (size_wma s2)))"
  using wma_f_add_never_traps [OF small_wma_wf small_wma_init, of "[Fin 5]" "Fin 6"]
    small_wma_wf small_wma_init
  by simp

text \<open>
  C3. A call of \<open>wma_f_add\<close> that leaves the sample count below the window size
  leaves the average as it was; so the average is still the 0 that \<open>wma_f_init\<close>
  stored after any sequence of fewer samples than the window holds.
\<close>

theorem wma_f_add_warm_up:
  "(wma_f_add ar s x = Inr s' \<and> unat (k s') < unat (size_wma s') \<longrightarrow> avg s' = avg s) \<and>
   (wma_wf s0 \<and> wma_f_init ar s0 = Inr (ERROR_NONE, s1) \<and> length xs < unat (size_wma s0) \<longrightarrow>
      (\<exists>s2. add_all ar s1 xs = Inr s2 \<and> avg s2 = f_zero ar))"
proof (intro conjI impI)
  assume "wma_f_add ar s x = Inr s' \<and> unat (k s') < unat (size_wma s')"
  then show "avg s' = avg s"
    by (auto simp: wma_f_add_def Let_def split: if_splits sum.splits)
next
  assume a: "wma_wf s0 \<and> wma_f_init ar s0 = Inr (ERROR_NONE, s1) \<and>
    length xs < unat (size_wma s0)"
  then have wf: "wma_wf s0" and init: "wma_f_init ar s0 = Inr (ERROR_NONE, s1)" by simp_all
  note i = wma_f_init_ok [OF wf init]
  have "size_wma s1 \<noteq> 0" using i by simp
  moreover have "unat (k s1) + length xs < unat (size_wma s1)" using i a by simp
  ultimately show "\<exists>s2. add_all ar s1 xs = Inr s2 \<and> avg s2 = f_zero ar"
    using warm_up_run [OF i(2), of xs ar] i(7) by simp
qed

theorem wma_f_add_warm_up_witness:
  "(wma_f_add exact_arith small_wma_ready (Fin 5) =
      Inr \<lparr>k = 1, size_wma = 2, avg = Fin 0, sum_weight = Fin 4,
           weight = [Fin 1, Fin 3], buffer = [Fin 5, Fin 8]\<rparr> \<and>
    unat (1 :: 16 word) < unat (2 :: 16 word)) \<and>
   (wma_wf small_wma \<and> wma_f_init exact_arith small_wma = Inr (ERROR_NONE, small_wma_ready) \<and>
    length [Fin 5] < unat (size_wma small_wma)) \<and>
   avg small_wma_ready = Fin 0 \<and>
   (\<exists>s2. add_all exact_arith small_wma_ready [Fin 5] = Inr s2 \<and> avg s2 = Fin 0)"
  using wma_f_add_warm_up [of exact_arith small_wma_ready "Fin 5"
      "\<lparr>k = 1, size_wma = 2, avg = Fin 0, sum_weight = Fin 4,
        weight = [Fin 1, Fin 3], buffer = [Fin 5, Fin 8]\<rparr>" small_wma small_wma_ready
      "[Fin 5]"]
    small_add1 small_wma_wf small_wma_init
  by (simp add: small_wma_def small_wma_ready_def exact_arith_def)

text \<open>
  What a recomputing call does. When a call of \<open>wma_f_add\<close> leaves the counter \<open>k\<close>
  at or above the window size, the new average is the weighted total of the window
  divided by the weight sum, where the window is read from the ring starting at the
  cursor (\<open>k\<close> modulo the window size), the total is accumulated in \<open>double\<close> and the
  quotient is narrowed to \<open>float\<close>. That window is the last \<open>size\<close> samples in the
  order they were added: weight 0 meets the oldest of them and weight \<open>size - 1\<close> the
  sample just added.
\<close>

theorem wma_f_add_average:
  assumes wf: "wma_wf s0" and init: "wma_f_init ar s0 = Inr (ERROR_NONE, s1)"
    and run: "add_all ar s1 xs = Inr s2" and add: "wma_f_add ar s2 x = Inr s3"
    and full: "unat (size_wma s3) \<le> unat (k s3)"
  shows "avg s3 = window_average ar (weight s3) (sum_weight s3)
           (ring_window (buffer s3) (unat (k s3) mod unat (size_wma s3)) (unat (size_wma s3))) \<and>
         ring_window (buffer s3) (unat (k s3) mod unat (size_wma s3)) (unat (size_wma s3)) =
           last_n (unat (size_wma s3)) (xs @ [x]) \<and>
         unat (size_wma s3) \<le> length (xs @ [x]) \<and>
         buffer s3 ! ((0 + unat (k s3) mod unat (size_wma s3)) mod unat (size_wma s3)) =
           (xs @ [x]) ! (length (xs @ [x]) - unat (size_wma s3)) \<and>
         buffer s3 ! ((unat (size_wma s3) - 1 + unat (k s3) mod unat (size_wma s3))
             mod unat (size_wma s3)) = x"
proof -
  let ?n = "unat (size_wma s3)"
  let ?c = "unat (k s3) mod ?n"
  note i = wma_f_init_ok [OF wf init]
  have nz1: "size_wma s1 \<noteq> 0" using i by simp
  from add_all_total [OF i(2) nz1, of ar xs] run
  have s2: "wma_wf s2" "size_wma s2 = size_wma s1" by auto
  have nz2: "size_wma s2 \<noteq> 0" using s2 nz1 by simp
  note f = wma_f_add_fields [OF s2(1) nz2 add]
  have npos: "0 < ?n" using f nz2 by (simp add: unat_gt_0)
  have "ring_inv s1 []" using i by (intro ring_inv_init)
  then have "ring_inv s2 ([] @ xs)"
    using i(2) nz1 run by (rule ring_inv_add_all)
  then have "ring_inv s2 xs" by simp
  then have inv: "ring_inv s3 (xs @ [x])"
    using s2(1) nz2 add by (rule ring_inv_step)
  have step: "?n \<le> in_step s3 (xs @ [x])"
  proof (cases "?n dvd 2 ^ LENGTH('a)")
    case True
    have "unat (k s3) \<le> length (xs @ [x])"
      using inv unfolding ring_inv_def by (metis mod_less_eq_dividend)
    with full True show ?thesis by (simp add: in_step_def)
  next
    case False
    with full show ?thesis by (simp add: in_step_def)
  qed
  have win: "ring_window (buffer s3) ?c ?n = last_n ?n (xs @ [x])"
    using inv step by (rule ring_window_last_n)
  have nL: "?n \<le> length (xs @ [x])"
    using in_step_le [OF inv] step by simp
  have a: "avg s3 = window_average ar (weight s3) (sum_weight s3) (ring_window (buffer s3) ?c ?n)"
    using wma_f_add_avg [OF s2(1) nz2 add] full by simp
  have "ring_window (buffer s3) ?c ?n ! 0 = last_n ?n (xs @ [x]) ! 0"
    using win by simp
  moreover have "ring_window (buffer s3) ?c ?n ! 0 = buffer s3 ! ((0 + ?c) mod ?n)"
    using npos by (simp add: ring_window_def)
  moreover have "last_n ?n (xs @ [x]) ! 0 = (xs @ [x]) ! (length (xs @ [x]) - ?n)"
    using last_n_nth [OF nL, of 0] by simp
  ultimately have oldest:
    "buffer s3 ! ((0 + ?c) mod ?n) = (xs @ [x]) ! (length (xs @ [x]) - ?n)"
    by simp
  have "ring_window (buffer s3) ?c ?n ! (?n - 1) = last_n ?n (xs @ [x]) ! (?n - 1)"
    using win by simp
  moreover have "ring_window (buffer s3) ?c ?n ! (?n - 1) = buffer s3 ! ((?n - 1 + ?c) mod ?n)"
    using npos by (simp add: ring_window_def)
  moreover have "length (xs @ [x]) - ?n + (?n - 1) = length xs"
    using npos nL by simp
  then have "last_n ?n (xs @ [x]) ! (?n - 1) = x"
    using last_n_nth [OF nL, of "?n - 1"] by simp
  ultimately have newest: "buffer s3 ! ((?n - 1 + ?c) mod ?n) = x"
    by simp
  from a win nL oldest newest show ?thesis by blast
qed

theorem wma_f_add_average_witness:
  "wma_wf small_wma \<and> wma_f_init exact_arith small_wma = Inr (ERROR_NONE, small_wma_ready) \<and>
   add_all exact_arith small_wma_ready [Fin 5] =
     Inr \<lparr>k = 1, size_wma = 2, avg = Fin 0, sum_weight = Fin 4,
          weight = [Fin 1, Fin 3], buffer = [Fin 5, Fin 8]\<rparr> \<and>
   wma_f_add exact_arith \<lparr>k = 1 :: 16 word, size_wma = 2, avg = Fin 0, sum_weight = Fin 4,
      weight = [Fin 1, Fin 3], buffer = [Fin 5, Fin 8]\<rparr> (Fin 6) =
     Inr \<lparr>k = 2, size_wma = 2, avg = Fin (23 / 4), sum_weight = Fin 4,
          weight = [Fin 1, Fin 3], buffer = [Fin 5, Fin 6]\<rparr> \<and>
   unat (2 :: 16 word) \<le> unat (2 :: 16 word) \<and>
   Fin (23 / 4) = window_average exact_arith [Fin 1, Fin 3] (Fin 4) [Fin 5, Fin 6] \<and>
   ring_window [Fin 5, Fin 6] 0 2 = last_n 2 [Fin 5, Fin 6]"
proof -
  have run: "add_all exact_arith small_wma_ready [Fin 5] =
     Inr \<lparr>k = 1, size_wma = 2, avg = Fin 0, sum_weight = Fin 4,
          weight = [Fin 1, Fin 3], buffer = [Fin 5, Fin 8]\<rparr>"
    using small_add1 by simp
  have full: "unat (size_wma \<lparr>k = 2 :: 16 word, size_wma = 2, avg = Fin (23 / 4),
      sum_weight = Fin 4, weight = [Fin 1, Fin 3], buffer = [Fin 5, Fin 6]\<rparr>)
    \<le> unat (k \<lparr>k = 2 :: 16 word, size_wma = 2, avg = Fin (23 / 4),
      sum_weight = Fin 4, weight = [Fin 1, Fin 3], buffer = [Fin 5, Fin 6]\<rparr>)"
    by simp
  have win: "ring_window [Fin 5, Fin 6 :: xnum] 0 2 = [Fin 5, Fin 6]"
    by (simp add: ring_window_def upt_rec)
  show ?thesis
    using wma_f_add_average [OF small_wma_wf small_wma_init run small_add2 full]
      small_wma_wf small_wma_init run small_add2 win
    by simp
qed

text \<open>
  C1. Every call of \<open>wma_f_add\<close> from the \<open>size\<close>-th sample on is to set the average
  to the weighted average of the last \<open>size\<close> samples. The code does so only while the
  counter \<open>k\<close> is at or above the window size, and \<open>k++\<close> wraps around. With a 16-bit
  counter, a window of 2 and the weights 1 and 3, the samples numbered 0 to 65535 leave
  \<open>k = 0\<close>: the last call returned early, and the average is still 262135 / 4, computed
  one call before from the samples 65533 and 65534. The weighted average of the last
  two samples, 65534 and 65535, is 262139 / 4.
\<close>

theorem counter_wrap_stale_average:
  "wma_wf small_wma \<and>
   length (sample_ramp 65536) = 65536 \<and>
   map_sum id k (init_then_add exact_arith small_wma (sample_ramp 65536)) = Inr 0 \<and>
   map_sum id avg (init_then_add exact_arith small_wma (sample_ramp 65536)) =
     Inr (Fin (262135 / 4)) \<and>
   last_n 2 (sample_ramp 65536) = [Fin 65534, Fin 65535] \<and>
   window_average exact_arith [Fin 1, Fin 3] (Fin 4) [Fin 65534, Fin 65535] =
     Fin (262139 / 4)"
proof -
  have split: "sample_ramp 65536 = sample_ramp 65535 @ [Fin 65535]"
    using sample_ramp_snoc [of 65535] by simp
  from add_all_total [OF small_wma_ready_wf, of exact_arith "sample_ramp 65536"]
  obtain sf where sf: "add_all exact_arith small_wma_ready (sample_ramp 65536) = Inr sf"
    by blast
  then obtain s where s: "add_all exact_arith small_wma_ready (sample_ramp 65535) = Inr s"
    and add: "wma_f_add exact_arith s (Fin 65535) = Inr sf"
    unfolding split add_all_append by (auto split: sum.splits)
  note p = small_wrap_prefix [OF s]
  have nz: "size_wma s \<noteq> 0" using p by simp
  note f = wma_f_add_fields [OF p(3) nz add]
  have k0: "k sf = 0" using f(4) p(1) by simp
  have "unat (k sf) < unat (size_wma sf)" using k0 f(1) p(4) by simp
  then have "avg sf = avg s"
    using wma_f_add_avg [OF p(3) nz add] by simp
  then have a: "avg sf = Fin (262135 / 4)" using p(2) by simp
  have run: "init_then_add exact_arith small_wma (sample_ramp 65536) = Inr sf"
    using sf by (simp add: init_then_add_def small_wma_init)
  have len: "length (sample_ramp 65536) = 65536" by (rule length_sample_ramp)
  have last2: "last_n 2 (sample_ramp 65536) = [Fin 65534, Fin 65535]"
    using last_n_ramp2 [of 65534] by simp
  have want: "window_average exact_arith [Fin 1, Fin 3] (Fin 4) [Fin 65534, Fin 65535] =
     Fin (262139 / 4)"
    by (simp add: window_average_def weighted_total_def exact_arith_def)
  from small_wma_wf len run k0 a last2 want show ?thesis by simp
qed

text \<open>
  Where the ring is in order. After any sequence of calls the next \<open>wma_f_add\<close>
  overwrites the slot at \<open>k\<close> modulo the window size and no other. The ring read from
  that slot is the last \<open>size\<close> samples in the order they arrived whenever \<open>k\<close> is at
  or above the window size, and also, once \<open>size\<close> samples have been added, whenever the
  window size divides \<open>2 ^ LENGTH('w)\<close>, as every power of two up to that bound does.
\<close>

theorem ring_buffer_holds_window:
  fixes s0 :: "('w::len, 'f) wma_f_t"
  assumes wf: "wma_wf s0" and init: "wma_f_init ar s0 = Inr (ERROR_NONE, s1)"
    and run: "add_all ar s1 xs = Inr s2"
  shows "(\<forall>y. map_sum id buffer (wma_f_add ar s2 y) =
             Inr ((buffer s2)[unat (k s2) mod unat (size_wma s2) := y])) \<and>
         (unat (size_wma s2) \<le> unat (k s2) \<or>
          unat (size_wma s2) \<le> length xs \<and> unat (size_wma s2) dvd 2 ^ LENGTH('w) \<longrightarrow>
            ring_window (buffer s2) (unat (k s2) mod unat (size_wma s2)) (unat (size_wma s2)) =
              last_n (unat (size_wma s2)) xs)"
proof (intro conjI allI impI)
  note i = wma_f_init_ok [OF wf init]
  have nz1: "size_wma s1 \<noteq> 0" using i by simp
  from add_all_total [OF i(2) nz1, of ar xs] run
  have s2: "wma_wf s2" "size_wma s2 = size_wma s1" by auto
  have nz2: "size_wma s2 \<noteq> 0" using s2 nz1 by simp
  fix y
  show "map_sum id buffer (wma_f_add ar s2 y) =
      Inr ((buffer s2)[unat (k s2) mod unat (size_wma s2) := y])"
    by (simp add: wma_f_add_eq [OF s2(1) nz2])
next
  assume a: "unat (size_wma s2) \<le> unat (k s2) \<or>
    unat (size_wma s2) \<le> length xs \<and> unat (size_wma s2) dvd 2 ^ LENGTH('w)"
  have cnt: "unat (k s2) = length xs mod 2 ^ LENGTH('w)"
    using wf init run by (rule count_after_run)
  have "unat (size_wma s2) \<le> in_step s2 xs"
  proof (cases "unat (size_wma s2) \<le> unat (k s2)")
    case True
    with cnt show ?thesis by (rule in_step_full)
  next
    case False
    with a have "unat (size_wma s2) \<le> length xs"
      and "unat (size_wma s2) dvd 2 ^ LENGTH('w)" by blast+
    then show ?thesis by (simp add: in_step_def)
  qed
  with wf init run show "ring_window (buffer s2) (unat (k s2) mod unat (size_wma s2))
      (unat (size_wma s2)) = last_n (unat (size_wma s2)) xs"
    by (rule window_after_run)
qed

theorem ring_buffer_holds_window_witness:
  "wma_wf small_wma \<and> wma_f_init exact_arith small_wma = Inr (ERROR_NONE, small_wma_ready) \<and>
   add_all exact_arith small_wma_ready [Fin 5, Fin 6] =
     Inr \<lparr>k = 2, size_wma = 2, avg = Fin (23 / 4), sum_weight = Fin 4,
          weight = [Fin 1, Fin 3], buffer = [Fin 5, Fin 6]\<rparr> \<and>
   map_sum id buffer
     (wma_f_add exact_arith \<lparr>k = 2 :: 16 word, size_wma = 2, avg = Fin (23 / 4),
        sum_weight = Fin 4, weight = [Fin 1, Fin 3], buffer = [Fin 5, Fin 6]\<rparr> (Fin 7)) =
     Inr [Fin 7, Fin 6] \<and>
   unat (2 :: 16 word) \<le> unat (2 :: 16 word) \<and>
   ring_window [Fin 5, Fin 6] 0 2 = last_n 2 [Fin 5, Fin 6]"
  using ring_buffer_holds_window [OF small_wma_wf small_wma_init small_run2]
    small_wma_wf small_wma_init small_run2
  by simp

text \<open>
  C2. The buffer is to hold the last \<open>size\<close> samples at all times. The code loses one
  when the counter wraps around and the window size does not divide \<open>2 ^ LENGTH('w)\<close>.
  With a 16-bit counter and a window of 3, the samples numbered 0 to 65536 leave the
  buffer holding samples 65536, 65533 and 65534: sample 65535 was written to slot 0
  (65535 mod 3), the counter wrapped to 0, and sample 65536 overwrote it there. The last
  three samples are 65534, 65535 and 65536.
\<close>

theorem ring_buffer_overflow_counterexample:
  "wma_wf overflow_wma \<and>
   map_sum id buffer (init_then_add exact_arith overflow_wma (sample_ramp 65537)) =
     Inr [Fin 65536, Fin 65533, Fin 65534] \<and>
   map_sum id k (init_then_add exact_arith overflow_wma (sample_ramp 65537)) = Inr 1 \<and>
   last_n 3 (sample_ramp 65537) = [Fin 65534, Fin 65535, Fin 65536]"
proof -
  let ?s1 = "overflow_wma\<lparr>sum_weight := Fin 3\<rparr>"
  have wf0: "wma_wf overflow_wma" by (simp add: wma_wf_def overflow_wma_def)
  have wf1: "wma_wf ?s1" and nz1: "size_wma ?s1 \<noteq> 0"
    by (simp_all add: wma_wf_def overflow_wma_def)
  have split: "sample_ramp 65537 = sample_ramp 65535 @ [Fin 65535, Fin 65536]"
    using sample_ramp_split [of 65535] by simp
  from add_all_total [OF wf1 nz1, of exact_arith "sample_ramp 65537"]
  obtain sf where sf: "add_all exact_arith ?s1 (sample_ramp 65537) = Inr sf" by blast
  then obtain s where s: "add_all exact_arith ?s1 (sample_ramp 65535) = Inr s"
    and rest: "add_all exact_arith s [Fin 65535, Fin 65536] = Inr sf"
    unfolding split add_all_append by (auto split: sum.splits)
  note p = overflow_prefix [OF s]
  from rest obtain s' where a1: "wma_f_add exact_arith s (Fin 65535) = Inr s'"
    and a2: "wma_f_add exact_arith s' (Fin 65536) = Inr sf"
    by (auto split: sum.splits)
  have nz: "size_wma s \<noteq> 0" using p by simp
  note f1 = wma_f_add_fields [OF p(3) nz a1]
  have k1: "k s' = 0" using f1(4) p(1) by simp
  have b1: "buffer s' = [Fin 65535, Fin 65533, Fin 65534]"
    using f1(5) p by simp
  have nz': "size_wma s' \<noteq> 0" using f1 p by simp
  note f2 = wma_f_add_fields [OF f1(6) nz' a2]
  have k2: "k sf = 1" using f2(4) k1 by simp
  have b2: "buffer sf = [Fin 65536, Fin 65533, Fin 65534]"
    using f2(5) f1(1) p(4) k1 b1 by simp
  have run: "init_then_add exact_arith overflow_wma (sample_ramp 65537) = Inr sf"
    using sf by (simp add: init_then_add_def overflow_init)
  have last3: "last_n 3 (sample_ramp 65537) = [Fin 65534, Fin 65535, Fin 65536]"
    using last_n_ramp [of 65534] by simp
  show ?thesis using wf0 run k2 b2 last3 by simp
qed

text \<open>
  C6. The usage example: a window of 8 with the weights 0.1, 0.1, 0.125, 0.125, 0.25,
  0.25, 0.5, 1.0, and the samples 1.0, 2.1, -30.2, -35.3, 11.4, 35.5, 30.6, 20.7, 3.8,
  10.9 added in this order after \<open>wma_f_init\<close>. Through the first seven additions the
  average is the 0 that \<open>wma_f_init\<close> stored; after the eighth it is the weighted
  average of the eight samples, oldest first; after the tenth the cursor is 2, the ring
  read from there is the last eight of the ten samples, and the average is their
  weighted average. This holds for every arithmetic, every conversion \<open>lit\<close> of the
  decimal constants and every counter that can count to 10. The weight sum is the
  \<open>float\<close> sum of the weights; computed without rounding it is 2.45.
\<close>

theorem usage_example_averages:
  fixes ar :: "('f, 'd) arith" and lit :: "rat \<Rightarrow> 'f" and buf :: "'f list"
  assumes len: "length buf = 8" and wide: "10 < (2::nat) ^ LENGTH('w::len)"
  shows
    "(\<forall>m \<le> 7. \<exists>s :: ('w, 'f) wma_f_t.
        init_then_add ar (usage_wma lit buf) (take m (usage_samples lit)) = Inr s \<and>
        avg s = f_zero ar) \<and>
     (\<exists>s :: ('w, 'f) wma_f_t.
        init_then_add ar (usage_wma lit buf) (take 8 (usage_samples lit)) = Inr s \<and>
        unat (k s) = 8 \<and>
        avg s = window_average ar (usage_weights lit)
                  (foldl (f_add ar) (f_zero ar) (usage_weights lit))
                  (take 8 (usage_samples lit))) \<and>
     (\<exists>s :: ('w, 'f) wma_f_t.
        init_then_add ar (usage_wma lit buf) (usage_samples lit) = Inr s \<and>
        unat (k s) mod 8 = 2 \<and>
        ring_window (buffer s) 2 8 = drop 2 (usage_samples lit) \<and>
        avg s = window_average ar (usage_weights lit)
                  (foldl (f_add ar) (f_zero ar) (usage_weights lit))
                  (drop 2 (usage_samples lit))) \<and>
     foldl x_add (Fin 0) (usage_weights Fin) = Fin (49 / 20)"
proof -
  let ?s0 = "usage_wma lit buf :: ('w, 'f) wma_f_t"
  let ?s1 = "?s0\<lparr>avg := f_zero ar, k := 0,
       sum_weight := foldl (f_add ar) (f_zero ar) (usage_weights lit)\<rparr>"
  let ?sw = "foldl (f_add ar) (f_zero ar) (usage_weights lit)"
  have wf0: "wma_wf ?s0" using len by (rule usage_wma_wf)
  have init: "wma_f_init ar ?s0 = Inr (ERROR_NONE, ?s1)" by (rule usage_wma_init)
  have run_eq: "init_then_add ar ?s0 xs = add_all ar ?s1 xs" for xs
    by (simp add: init_then_add_def init)
  have wf1: "wma_wf ?s1" and nz1: "size_wma ?s1 \<noteq> 0" and sz1: "unat (size_wma ?s1) = 8"
    using wf0 by (simp_all add: wma_wf_def usage_wma_def)
  have w0: "weight ?s0 = usage_weights lit" and n0: "unat (size_wma ?s0) = 8"
    by (simp_all add: usage_wma_def)
  have total: "\<exists>s. add_all ar ?s1 xs = Inr s \<and> size_wma s = size_wma ?s1" for xs
    using add_all_total [OF wf1 nz1, of ar xs] by blast
  have warm: "\<forall>m \<le> 7. \<exists>s :: ('w, 'f) wma_f_t.
      init_then_add ar ?s0 (take m (usage_samples lit)) = Inr s \<and> avg s = f_zero ar"
  proof (intro allI impI)
    fix m :: nat assume m: "m \<le> 7"
    have "unat (k ?s1) + length (take m (usage_samples lit)) < unat (size_wma ?s1)"
      using m sz1 by (simp add: usage_wma_def)
    from warm_up_run [OF wf1 nz1 this, of ar]
    show "\<exists>s :: ('w, 'f) wma_f_t.
        init_then_add ar ?s0 (take m (usage_samples lit)) = Inr s \<and> avg s = f_zero ar"
      by (simp add: run_eq)
  qed
  have eighth: "\<exists>s :: ('w, 'f) wma_f_t.
      init_then_add ar ?s0 (take 8 (usage_samples lit)) = Inr s \<and> unat (k s) = 8 \<and>
      avg s = window_average ar (usage_weights lit) ?sw (take 8 (usage_samples lit))"
  proof -
    let ?xs = "take 8 (usage_samples lit)"
    from total [of ?xs] obtain s where s: "add_all ar ?s1 ?xs = Inr s"
      and sz: "size_wma s = size_wma ?s1" by blast
    have lx: "length ?xs = 8" by (simp add: usage_samples_def)
    have "unat (k s) = length ?xs mod 2 ^ LENGTH('w)"
      using wf0 init s by (rule count_after_run)
    then have ks: "unat (k s) = 8" using wide lx by simp
    have ne: "?xs \<noteq> []" using lx by auto
    have full: "unat (size_wma s) \<le> unat (k s)" using ks sz sz1 by simp
    have "avg s = window_average ar (weight ?s0) (foldl (f_add ar) (f_zero ar) (weight ?s0))
        (last_n (unat (size_wma ?s0)) ?xs)"
      using wf0 init s ne full by (rule average_after_run)
    moreover have "last_n 8 ?xs = ?xs" using lx by (simp add: last_n_def)
    ultimately show ?thesis using s ks w0 n0 by (simp add: run_eq)
  qed
  have tenth: "\<exists>s :: ('w, 'f) wma_f_t.
      init_then_add ar ?s0 (usage_samples lit) = Inr s \<and> unat (k s) mod 8 = 2 \<and>
      ring_window (buffer s) 2 8 = drop 2 (usage_samples lit) \<and>
      avg s = window_average ar (usage_weights lit) ?sw (drop 2 (usage_samples lit))"
  proof -
    let ?xs = "usage_samples lit"
    from total [of ?xs] obtain s where s: "add_all ar ?s1 ?xs = Inr s"
      and sz: "size_wma s = size_wma ?s1" by blast
    have lx: "length ?xs = 10" by (simp add: usage_samples_def)
    have cnt: "unat (k s) = length ?xs mod 2 ^ LENGTH('w)"
      using wf0 init s by (rule count_after_run)
    then have ks: "unat (k s) = 10" using wide lx by simp
    have ne: "?xs \<noteq> []" using lx by auto
    have full: "unat (size_wma s) \<le> unat (k s)" using ks sz sz1 by simp
    have "avg s = window_average ar (weight ?s0) (foldl (f_add ar) (f_zero ar) (weight ?s0))
        (last_n (unat (size_wma ?s0)) ?xs)"
      using wf0 init s ne full by (rule average_after_run)
    moreover have l8: "last_n 8 ?xs = drop 2 ?xs" using lx by (simp add: last_n_def)
    moreover have "unat (size_wma s) \<le> in_step s ?xs"
      using cnt full by (rule in_step_full)
    with wf0 init s
    have "ring_window (buffer s) (unat (k s) mod unat (size_wma s)) (unat (size_wma s)) =
        last_n (unat (size_wma s)) ?xs"
      by (rule window_after_run)
    then have "ring_window (buffer s) 2 8 = drop 2 ?xs"
      using ks sz sz1 l8 by simp
    ultimately show ?thesis using s ks w0 n0 by (simp add: run_eq)
  qed
  from warm eighth tenth usage_exact_sum show ?thesis by blast
qed

theorem usage_example_averages_witness:
  "length (replicate 8 (Fin 0)) = 8 \<and> 10 < (2::nat) ^ LENGTH(16) \<and>
   ((7::nat) \<le> 7 \<and>
    (\<exists>s :: (16, xnum) wma_f_t.
       init_then_add exact_arith (usage_wma Fin (replicate 8 (Fin 0)))
         (take 7 (usage_samples Fin)) = Inr s \<and> avg s = Fin 0)) \<and>
   (\<exists>s :: (16, xnum) wma_f_t.
      init_then_add exact_arith (usage_wma Fin (replicate 8 (Fin 0)))
        (take 8 (usage_samples Fin)) = Inr s \<and> unat (k s) = 8 \<and>
      avg s = Fin (2277 / 140)) \<and>
   (\<exists>s :: (16, xnum) wma_f_t.
      init_then_add exact_arith (usage_wma Fin (replicate 8 (Fin 0)))
        (usage_samples Fin) = Inr s \<and> unat (k s) mod 8 = 2 \<and>
      ring_window (buffer s) 2 8 = drop 2 (usage_samples Fin) \<and>
      avg s = Fin (285 / 28))"
proof -
  have len: "length (replicate 8 (Fin 0)) = 8" by simp
  have wide: "10 < (2::nat) ^ LENGTH(16)" by simp
  have sw: "foldl (f_add exact_arith) (Fin 0) (usage_weights Fin) = Fin (49 / 20)"
    using usage_exact_sum by (simp add: exact_arith_def)
  have z: "f_zero exact_arith = Fin 0" by (simp add: exact_arith_def)
  note t = usage_example_averages [where ?'w = 16, OF len wide, of exact_arith Fin,
      unfolded sw usage_exact_avg8 usage_exact_avg10 z]
  note t1 = t [THEN conjunct1] and t2 = t [THEN conjunct2, THEN conjunct1]
    and t3 = t [THEN conjunct2, THEN conjunct2, THEN conjunct1]
  from t1 have "(7::nat) \<le> 7 \<longrightarrow> (\<exists>s :: (16, xnum) wma_f_t.
       init_then_add exact_arith (usage_wma Fin (replicate 8 (Fin 0)))
         (take 7 (usage_samples Fin)) = Inr s \<and> avg s = Fin 0)"
    by (rule spec)
  then have t7: "\<exists>s :: (16, xnum) wma_f_t.
       init_then_add exact_arith (usage_wma Fin (replicate 8 (Fin 0)))
         (take 7 (usage_samples Fin)) = Inr s \<and> avg s = Fin 0"
    by (rule mp) (rule order_refl)
  have le: "(7::nat) \<le> 7" by (rule order_refl)
  from len wide le t7 t2 t3 show ?thesis
    by (intro conjI)
qed

text \<open>
  C7, as the code has it. Two instances with the same window size and weights, both
  initialised and fed the same samples, end with the same sample count, average and
  weight sum, and with the same contents in every slot that has been written since
  \<open>wma_f_init\<close>: the slots below the number of samples, the window size and
  \<open>2 ^ LENGTH('w)\<close>. Their buffers are equal once at least \<open>size\<close> samples have been
  added, provided the window size is at most \<open>2 ^ LENGTH('w)\<close>, which every counter at
  least as wide as the 16-bit window size ensures.
\<close>

theorem replay_agrees:
  fixes s0 t0 :: "('w::len, 'f) wma_f_t"
  assumes "wma_wf s0" and "wma_wf t0" and "size_wma s0 = size_wma t0"
    and "weight s0 = weight t0"
    and "wma_f_init ar s0 = Inr (ERROR_NONE, s1)" and "wma_f_init ar t0 = Inr (ERROR_NONE, t1)"
    and "add_all ar s1 xs = Inr s2" and "add_all ar t1 xs = Inr t2"
  shows "k s2 = k t2 \<and> avg s2 = avg t2 \<and> sum_weight s2 = sum_weight t2 \<and>
         size_wma s2 = size_wma t2 \<and> weight s2 = weight t2 \<and>
         (\<forall>i < min (length xs) (min (unat (size_wma s2)) (2 ^ LENGTH('w))).
            buffer s2 ! i = buffer t2 ! i) \<and>
         (unat (size_wma s2) \<le> length xs \<and> unat (size_wma s2) \<le> 2 ^ LENGTH('w) \<longrightarrow>
            buffer s2 = buffer t2)"
proof -
  have "agree s1 t1 0" using assms(1-6) by (rule agree_init)
  then have "agree s2 t2 (0 + length xs)" using assms(7,8) by (rule agree_run)
  then have ag: "agree s2 t2 (length xs)" by simp
  then have eqs: "k s2 = k t2" "avg s2 = avg t2" "sum_weight s2 = sum_weight t2"
    "size_wma s2 = size_wma t2" "weight s2 = weight t2" "wma_wf s2" "wma_wf t2"
    unfolding agree_def by blast+
  from ag have slots: "\<forall>i < min (length xs) (min (unat (size_wma s2)) (2 ^ LENGTH('w))).
      buffer s2 ! i = buffer t2 ! i"
    unfolding agree_def by blast
  have "buffer s2 = buffer t2"
    if full: "unat (size_wma s2) \<le> length xs \<and> unat (size_wma s2) \<le> 2 ^ LENGTH('w)"
  proof (rule nth_equalityI)
    show "length (buffer s2) = length (buffer t2)"
      using eqs by (simp add: wma_wf_def)
    fix i assume "i < length (buffer s2)"
    then have "i < unat (size_wma s2)" using eqs by (simp add: wma_wf_def)
    with full have "i < min (length xs) (min (unat (size_wma s2)) (2 ^ LENGTH('w)))"
      by simp
    with slots show "buffer s2 ! i = buffer t2 ! i" by blast
  qed
  with eqs slots show ?thesis by blast
qed

theorem replay_agrees_witness:
  "wma_wf small_wma \<and> wma_wf stale_wma \<and> size_wma small_wma = size_wma stale_wma \<and>
   weight small_wma = weight stale_wma \<and> buffer small_wma \<noteq> buffer stale_wma \<and>
   wma_f_init exact_arith small_wma = Inr (ERROR_NONE, small_wma_ready) \<and>
   wma_f_init exact_arith stale_wma =
     Inr (ERROR_NONE, \<lparr>k = 0, size_wma = 2, avg = Fin 0, sum_weight = Fin 4,
            weight = [Fin 1, Fin 3], buffer = [Fin 7, Fin 9]\<rparr>) \<and>
   add_all exact_arith small_wma_ready [Fin 5, Fin 6] =
     Inr \<lparr>k = 2, size_wma = 2, avg = Fin (23 / 4), sum_weight = Fin 4,
          weight = [Fin 1, Fin 3], buffer = [Fin 5, Fin 6]\<rparr> \<and>
   add_all exact_arith \<lparr>k = 0 :: 16 word, size_wma = 2, avg = Fin 0, sum_weight = Fin 4,
      weight = [Fin 1, Fin 3], buffer = [Fin 7, Fin 9]\<rparr> [Fin 5, Fin 6] =
     Inr \<lparr>k = 2, size_wma = 2, avg = Fin (23 / 4), sum_weight = Fin 4,
          weight = [Fin 1, Fin 3], buffer = [Fin 5, Fin 6]\<rparr> \<and>
   (2 :: nat) \<le> length [Fin 5, Fin 6] \<and> (2 :: nat) \<le> 2 ^ LENGTH(16)"
proof -
  have sz: "size_wma small_wma = size_wma stale_wma"
    and we: "weight small_wma = weight stale_wma"
    and bu: "buffer small_wma \<noteq> buffer stale_wma"
    by (simp_all add: small_wma_def stale_wma_def)
  show ?thesis
    using replay_agrees [OF small_wma_wf stale_wma_wf sz we small_wma_init stale_wma_init
        small_run2 stale_run2]
      small_wma_wf stale_wma_wf sz we bu small_wma_init stale_wma_init small_run2 stale_run2
    by simp
qed

text \<open>
  C7, as stated, fails for the buffer contents during warm-up: \<open>wma_f_init\<close> does not
  clear the buffer, so a slot that has not been written yet still holds what the caller
  left there. Two instances with window size 2 and the same weights, whose buffers held
  \<open>[7, 8]\<close> and \<open>[7, 9]\<close> before initialisation, hold \<open>[5, 8]\<close> and \<open>[5, 9]\<close> after
  initialisation and the one sample 5.
\<close>

theorem replay_stale_buffer_counterexample:
  "wma_wf small_wma \<and> wma_wf stale_wma \<and> size_wma small_wma = size_wma stale_wma \<and>
   weight small_wma = weight stale_wma \<and>
   map_sum id buffer (init_then_add exact_arith small_wma [Fin 5]) = Inr [Fin 5, Fin 8] \<and>
   map_sum id buffer (init_then_add exact_arith stale_wma [Fin 5]) = Inr [Fin 5, Fin 9]"
proof -
  have "init_then_add exact_arith small_wma [Fin 5] =
      Inr \<lparr>k = 1, size_wma = 2, avg = Fin 0, sum_weight = Fin 4,
           weight = [Fin 1, Fin 3], buffer = [Fin 5, Fin 8]\<rparr>"
    by (simp add: init_then_add_def small_wma_init small_add1)
  moreover have "init_then_add exact_arith stale_wma [Fin 5] =
      Inr \<lparr>k = 1, size_wma = 2, avg = Fin 0, sum_weight = Fin 4,
           weight = [Fin 1, Fin 3], buffer = [Fin 5, Fin 9]\<rparr>"
    by (simp add: init_then_add_def stale_wma_init stale_add1)
  moreover have "size_wma small_wma = size_wma stale_wma"
    "weight small_wma = weight stale_wma"
    by (simp_all add: small_wma_def stale_wma_def)
  ultimately show ?thesis
    using small_wma_wf stale_wma_wf by simp
qed

text \<open>
  C10. \<open>wma_f_init\<close> does not look at the weights beyond adding them up: with a window
  size other than 0 it returns \<open>ERROR_NONE\<close> whatever the weight array holds. When all
  weights are 0 (and \<open>0 + 0\<close> is 0 in \<open>float\<close>) the weight sum is 0, and every call of
  \<open>wma_f_add\<close> that recomputes the average divides the total by that 0. In exact
  arithmetic, for instance, the weights \<open>-2\<close>, infinity and NaN are accepted, and with
  two zero weights the average becomes NaN, the result of \<open>0 / 0\<close>.
\<close>

theorem wma_f_init_accepts_any_weights:
  "(size_wma wma \<noteq> 0 \<and> length (weight wma) = unat (size_wma wma) \<longrightarrow>
      (\<exists>wma'. wma_f_init ar wma = Inr (ERROR_NONE, wma'))) \<and>
   (wma_wf s0 \<and> wma_f_init ar s0 = Inr (ERROR_NONE, s1) \<and>
    set (weight s0) \<subseteq> {f_zero ar} \<and> f_add ar (f_zero ar) (f_zero ar) = f_zero ar \<and>
    add_all ar s1 xs = Inr s2 \<and> wma_f_add ar s2 x = Inr s3 \<and>
    unat (size_wma s3) \<le> unat (k s3) \<longrightarrow>
      sum_weight s1 = f_zero ar \<and> sum_weight s3 = f_zero ar \<and>
      avg s3 = d2f ar (d_div ar
                 (weighted_total ar (weight s3)
                    (ring_window (buffer s3) (unat (k s3) mod unat (size_wma s3))
                       (unat (size_wma s3))))
                 (f2d ar (f_zero ar))))"
proof (intro conjI impI)
  assume "size_wma wma \<noteq> 0 \<and> length (weight wma) = unat (size_wma wma)"
  then show "\<exists>wma'. wma_f_init ar wma = Inr (ERROR_NONE, wma')"
    by (simp add: wma_f_init_eq)
next
  assume a: "wma_wf s0 \<and> wma_f_init ar s0 = Inr (ERROR_NONE, s1) \<and>
    set (weight s0) \<subseteq> {f_zero ar} \<and> f_add ar (f_zero ar) (f_zero ar) = f_zero ar \<and>
    add_all ar s1 xs = Inr s2 \<and> wma_f_add ar s2 x = Inr s3 \<and>
    unat (size_wma s3) \<le> unat (k s3)"
  then have wf: "wma_wf s0" and init: "wma_f_init ar s0 = Inr (ERROR_NONE, s1)"
    and zs: "set (weight s0) \<subseteq> {f_zero ar}"
    and z: "f_add ar (f_zero ar) (f_zero ar) = f_zero ar"
    and run: "add_all ar s1 xs = Inr s2" and add: "wma_f_add ar s2 x = Inr s3"
    and full: "unat (size_wma s3) \<le> unat (k s3)"
    by blast+
  note i = wma_f_init_ok [OF wf init]
  have nz1: "size_wma s1 \<noteq> 0" using i by simp
  have sw1: "sum_weight s1 = f_zero ar"
    using i(8) foldl_zero [OF z zs] by simp
  from add_all_total [OF i(2) nz1, of ar xs] run
  have s2: "wma_wf s2" "size_wma s2 = size_wma s1" "sum_weight s2 = sum_weight s1" by auto
  have nz2: "size_wma s2 \<noteq> 0" using s2 nz1 by simp
  note f = wma_f_add_fields [OF s2(1) nz2 add]
  have sw3: "sum_weight s3 = f_zero ar" using f s2 sw1 by simp
  have "avg s3 = window_average ar (weight s3) (sum_weight s3)
      (ring_window (buffer s3) (unat (k s3) mod unat (size_wma s3)) (unat (size_wma s3)))"
    using wma_f_add_avg [OF s2(1) nz2 add] full by simp
  then have "avg s3 = d2f ar (d_div ar
      (weighted_total ar (weight s3)
         (ring_window (buffer s3) (unat (k s3) mod unat (size_wma s3)) (unat (size_wma s3))))
      (f2d ar (f_zero ar)))"
    by (simp add: window_average_def sw3)
  with sw1 sw3 show "sum_weight s1 = f_zero ar" and "sum_weight s3 = f_zero ar"
    and "avg s3 = d2f ar (d_div ar
                 (weighted_total ar (weight s3)
                    (ring_window (buffer s3) (unat (k s3) mod unat (size_wma s3))
                       (unat (size_wma s3))))
                 (f2d ar (f_zero ar)))"
    by simp_all
qed

theorem wma_f_init_accepts_any_weights_witness:
  "(size_wma odd_weights_wma \<noteq> 0 \<and>
    length (weight odd_weights_wma) = unat (size_wma odd_weights_wma) \<and>
    weight odd_weights_wma = [Fin (- 2), PInf, NaN] \<and>
    (\<exists>wma'. wma_f_init exact_arith odd_weights_wma = Inr (ERROR_NONE, wma'))) \<and>
   (wma_wf zero_weights_wma \<and>
    wma_f_init exact_arith zero_weights_wma = Inr (ERROR_NONE, zero_weights_wma) \<and>
    set (weight zero_weights_wma) \<subseteq> {f_zero exact_arith} \<and>
    f_add exact_arith (f_zero exact_arith) (f_zero exact_arith) = f_zero exact_arith \<and>
    add_all exact_arith zero_weights_wma [Fin 5] =
      Inr \<lparr>k = 1, size_wma = 2, avg = Fin 0, sum_weight = Fin 0,
           weight = [Fin 0, Fin 0], buffer = [Fin 5, Fin 0]\<rparr> \<and>
    wma_f_add exact_arith \<lparr>k = 1 :: 16 word, size_wma = 2, avg = Fin 0, sum_weight = Fin 0,
      weight = [Fin 0, Fin 0], buffer = [Fin 5, Fin 0]\<rparr> (Fin 6) =
      Inr \<lparr>k = 2, size_wma = 2, avg = NaN, sum_weight = Fin 0,
           weight = [Fin 0, Fin 0], buffer = [Fin 5, Fin 6]\<rparr> \<and>
    unat (2 :: 16 word) \<le> unat (2 :: 16 word)) \<and>
   sum_weight zero_weights_wma = f_zero exact_arith \<and>
   NaN = d2f exact_arith (d_div exact_arith
           (weighted_total exact_arith [Fin 0, Fin 0] (ring_window [Fin 5, Fin 6] 0 2))
           (f2d exact_arith (f_zero exact_arith)))"
proof -
  let ?s2 = "\<lparr>k = 1 :: 16 word, size_wma = 2, avg = Fin 0, sum_weight = Fin 0,
          weight = [Fin 0, Fin 0], buffer = [Fin 5, Fin 0]\<rparr>"
  let ?s3 = "\<lparr>k = 2 :: 16 word, size_wma = 2, avg = NaN, sum_weight = Fin 0,
          weight = [Fin 0, Fin 0], buffer = [Fin 5, Fin 6]\<rparr>"
  have o1: "size_wma odd_weights_wma \<noteq> 0"
    and o2: "length (weight odd_weights_wma) = unat (size_wma odd_weights_wma)"
    and o3: "weight odd_weights_wma = [Fin (- 2), PInf, NaN]"
    by (simp_all add: odd_weights_wma_def)
  have zs: "set (weight zero_weights_wma) \<subseteq> {f_zero exact_arith}"
    and z: "f_add exact_arith (f_zero exact_arith) (f_zero exact_arith) = f_zero exact_arith"
    by (simp_all add: zero_weights_wma_def exact_arith_def)
  have full: "unat (2 :: 16 word) \<le> unat (2 :: 16 word)" by simp
  then have full': "unat (size_wma ?s3) \<le> unat (k ?s3)" by simp
  note t = wma_f_init_accepts_any_weights [of odd_weights_wma exact_arith zero_weights_wma
        zero_weights_wma "[Fin 5]" ?s2 "Fin 6" ?s3]
  have c1: "\<exists>wma'. wma_f_init exact_arith odd_weights_wma = Inr (ERROR_NONE, wma')"
    by (rule t [THEN conjunct1, THEN mp]) (intro conjI o1 o2)
  have r: "sum_weight zero_weights_wma = f_zero exact_arith \<and>
      sum_weight ?s3 = f_zero exact_arith \<and>
      avg ?s3 = d2f exact_arith (d_div exact_arith
        (weighted_total exact_arith (weight ?s3)
           (ring_window (buffer ?s3) (unat (k ?s3) mod unat (size_wma ?s3))
              (unat (size_wma ?s3))))
        (f2d exact_arith (f_zero exact_arith)))"
    by (rule t [THEN conjunct2, THEN mp])
      (intro conjI zero_weights_wf zero_weights_init zs z zero_weights_add1
        zero_weights_add2 full')
  have c2: "sum_weight zero_weights_wma = f_zero exact_arith"
    by (rule r [THEN conjunct1])
  have c3: "NaN = d2f exact_arith (d_div exact_arith
           (weighted_total exact_arith [Fin 0, Fin 0] (ring_window [Fin 5, Fin 6] 0 2))
           (f2d exact_arith (f_zero exact_arith)))"
    using r [THEN conjunct2, THEN conjunct2] by simp
  from o1 o2 o3 c1 zero_weights_wf zero_weights_init zs z zero_weights_add1
    zero_weights_add2 full c2 c3
  show ?thesis by (intro conjI)
qed

end
